theory Spec2Isabelle
  imports
    Complex_Main
    "HOL-Library.Multiset"
    "HOL-Library.Char_ord"
    "HOL-Library.List_Lexorder"
    "HOL-Library.Log_Nat"
begin

section \<open>Assessment session and progress engine\<close>

text \<open>
  A shallow embedding of the instance methods of
  \<^verbatim>\<open>backend/src/models/AssessmentSession.ts\<close> and
  \<^verbatim>\<open>backend/src/models/AssessmentProgress.ts\<close>.

  Conventions of the embedding:
  \<^item> a JavaScript \<^verbatim>\<open>Number\<close> holding points, counters, seconds or a percentage is an
    \<open>int\<close>, of magnitude below \<open>2 ^ 53\<close>, where doubles and their sums are exact;
  \<^item> the quotient and the product that \<^verbatim>\<open>calculateScore\<close> forms before \<^verbatim>\<open>Math.round\<close> are
    rounded to binary64, to the nearest double with ties to even (\<open>to_double\<close>); the
    values are rationals, and the exponent range of the format is not modelled, the
    quotients of such integers being far from overflow and underflow;
  \<^item> the mean of at most three step scores in the progress hook is kept exact: the rounding
    of its double is too small to move it across a half;
  \<^item> a \<^verbatim>\<open>Date\<close> is its \<^verbatim>\<open>getTime()\<close> value, an \<open>int\<close> of milliseconds; the clock is a
    parameter \<open>now\<close>, read once per method call;
  \<^item> an optional field (\<^verbatim>\<open>f?: T\<close>, or a schema path without a default) is a \<open>T option\<close>;
  \<^item> a method that mutates \<^verbatim>\<open>this\<close> returns the updated document; a \<^verbatim>\<open>throw\<close> is an
    \<open>Inl\<close> result that carries the error and the document as the method has left it at
    the throw;
  \<^item> \<^verbatim>\<open>save()\<close> is the pre-save hook of the schema; schema validation and the database
    write are outside the model.
\<close>

subsection \<open>Enumerations (types/index.ts)\<close>

datatype AssessmentLevel = A1 | A2 | B1 | B2 | C1 | C2

datatype AssessmentStatus = NOT_STARTED | IN_PROGRESS | COMPLETED | FAILED | EXPIRED

datatype QuestionType = MULTIPLE_CHOICE | TRUE_FALSE | SCENARIO | PRACTICAL

datatype Severity = Low | Medium | High

datatype error = Error string | TypeError

type_synonym Date = int

type_synonym DigitalCompetency = string

subsection \<open>Embedded documents\<close>

record QuestionOption =
  opt_id :: string
  opt_text :: string
  opt_isCorrect :: bool
  opt_order :: int

record AssessmentQuestion =
  q_questionId :: string
  q_order :: int
  q_competency :: DigitalCompetency
  q_level :: AssessmentLevel
  q_points :: int
  q_timeAllowed :: int
  q_questionText :: string
  q_questionType :: QuestionType
  q_options :: "QuestionOption list option"
  q_imageUrl :: "string option"
  q_audioUrl :: "string option"
  q_videoUrl :: "string option"

record AssessmentAnswer =
  a_questionId :: string
  a_selectedAnswers :: "string list"
  a_timeSpent :: int
  a_isCorrect :: bool
  a_pointsEarned :: int
  a_answeredAt :: Date
  a_changedAnswers :: int
  a_tabSwitches :: int
  a_copyPasteDetected :: bool

record CheatingFlag =
  cf_type :: string
  cf_details :: string
  cf_timestamp :: Date
  cf_severity :: Severity

subsection \<open>The session document\<close>

record AssessmentSession =
  userId :: string
  step :: int
  status :: AssessmentStatus
  questions :: "AssessmentQuestion list"
  startTime :: "Date option"
  endTime :: "Date option"
  timeAllowed :: int
  timeRemaining :: "int option"
  answers :: "AssessmentAnswer list"
  score :: "int option"
  percentage :: "int option"
  levelAchieved :: "AssessmentLevel option"
  passed :: bool
  canProceedToNextStep :: bool
  nextStepUnlockedAt :: "Date option"
  ipAddress :: "string option"
  userAgent :: "string option"
  browserFingerprint :: "string option"
  isCompleted :: bool
  isSubmitted :: bool
  hasCheatingFlags :: bool
  cheatingDetails :: "CheatingFlag list option"

record ScoreResult =
  r_score :: int
  r_percentage :: int
  r_correctAnswers :: int

record LevelPair =
  lp_low :: AssessmentLevel
  lp_high :: AssessmentLevel

subsection \<open>Library functions of the host language\<close>

text \<open>\<^verbatim>\<open>Math.round\<close>: the nearest integer, a tie going up.\<close>

definition js_round :: "rat \<Rightarrow> int" where
  "js_round x = \<lfloor>x + 1 / 2\<rfloor>"

text \<open>
  The arithmetic of \<^verbatim>\<open>Number\<close>: the result of \<^verbatim>\<open>/\<close> and \<^verbatim>\<open>*\<close> is the exact result rounded
  to the nearest double, a tie going to the even significand. \<open>binade x\<close> is the exponent
  \<open>e\<close> with \<open>2^e \<le> x < 2^(e+1)\<close>; the doubles of that binade are the multiples of
  \<open>2^(e-52)\<close>.
\<close>

definition round_half_even :: "rat \<Rightarrow> int" where
  "round_half_even x =
     (let f = \<lfloor>x\<rfloor>; r = x - of_int f
      in if r < 1 / 2 then f else if 1 / 2 < r then f + 1 else if even f then f else f + 1)"

definition binade :: "rat \<Rightarrow> int" where
  "binade x =
     (let (p, q) = quotient_of x; d = bitlen p - bitlen q
      in if 2 powi d \<le> x then d else d - 1)"

definition to_double :: "rat \<Rightarrow> rat" where
  "to_double x =
     (if x = 0 then 0
      else
        (let ulp = 2 powi (binade \<bar>x\<bar> - 52)
         in sgn x * (of_int (round_half_even (\<bar>x\<bar> / ulp)) * ulp)))"

text \<open>\<^verbatim>\<open>Array.prototype.findIndex\<close>: the first index whose element passes, or -1.\<close>

fun findIndex :: "('a \<Rightarrow> bool) \<Rightarrow> 'a list \<Rightarrow> int" where
  "findIndex P [] = - 1"
| "findIndex P (x # xs) =
     (if P x then 0 else (let i = findIndex P xs in if i < 0 then - 1 else i + 1))"

text \<open>\<^verbatim>\<open>Array.prototype.indexOf\<close>.\<close>

definition indexOf :: "'a list \<Rightarrow> 'a \<Rightarrow> int" where
  "indexOf xs x = findIndex (\<lambda>y. y = x) xs"

text \<open>
  \<^verbatim>\<open>xs.every((answer, index) => answer === ys[index])\<close>, the callback seeing each element
  with its index; an index beyond \<open>ys\<close> reads \<^verbatim>\<open>undefined\<close>, which equals no string.
\<close>

definition every_same_at :: "string list \<Rightarrow> string list \<Rightarrow> bool" where
  "every_same_at xs ys =
     list_all (\<lambda>(answer, index). index < length ys \<and> answer = ys ! index)
       (zip xs [0..<length xs])"

subsection \<open>Session methods\<close>

text \<open>The pre-save hook of the session schema.\<close>

definition pre_save :: "Date \<Rightarrow> AssessmentSession \<Rightarrow> AssessmentSession" where
  "pre_save now s =
     (let s1 = (if isCompleted s \<and> status s \<noteq> COMPLETED then s\<lparr>status := COMPLETED\<rparr> else s);
          s2 = (if isCompleted s1 \<and> endTime s1 = None then s1\<lparr>endTime := Some now\<rparr> else s1)
      in (case cheatingDetails s2 of
            Some ds \<Rightarrow> s2\<lparr>hasCheatingFlags := (length ds > 0)\<rparr>
          | None \<Rightarrow> s2\<lparr>hasCheatingFlags := False\<rparr>))"

definition calculateScore :: "AssessmentSession \<Rightarrow> ScoreResult" where
  "calculateScore s =
     (if length (answers s) = 0
      then \<lparr>r_score = 0, r_percentage = 0, r_correctAnswers = 0\<rparr>
      else
        (let totalPoints = foldl (\<lambda>sum q. sum + q_points q) 0 (questions s);
             earnedPoints = foldl (\<lambda>sum a. sum + a_pointsEarned a) 0 (answers s);
             correctAnswers = int (length (filter a_isCorrect (answers s)));
             percentage =
               (if totalPoints > 0
                then js_round (to_double (to_double (of_int earnedPoints / of_int totalPoints) * 100))
                else 0)
         in \<lparr>r_score = earnedPoints, r_percentage = percentage,
             r_correctAnswers = correctAnswers\<rparr>))"

definition stepLevelMap :: "int \<Rightarrow> LevelPair option" where
  "stepLevelMap n =
     (if n = 1 then Some \<lparr>lp_low = A1, lp_high = A2\<rparr>
      else if n = 2 then Some \<lparr>lp_low = B1, lp_high = B2\<rparr>
      else if n = 3 then Some \<lparr>lp_low = C1, lp_high = C2\<rparr>
      else None)"

definition determineLevel :: "AssessmentSession \<Rightarrow> AssessmentLevel option" where
  "determineLevel s =
     (let percentage = r_percentage (calculateScore s)
      in if percentage < 25 then None
         else (case stepLevelMap (step s) of
                 None \<Rightarrow> None
               | Some levels \<Rightarrow>
                   Some (if percentage \<ge> 50 then lp_high levels else lp_low levels)))"

definition canProceedToNext :: "AssessmentSession \<Rightarrow> bool" where
  "canProceedToNext s = (r_percentage (calculateScore s) \<ge> 75 \<and> step s < 3)"

text \<open>
  \<^verbatim>\<open>addCheatingFlag\<close>: the severity defaults to medium; \<^verbatim>\<open>push\<close> on an absent list is
  a TypeError.
\<close>

definition addCheatingFlag ::
  "string \<Rightarrow> string \<Rightarrow> Severity option \<Rightarrow> Date \<Rightarrow> AssessmentSession
     \<Rightarrow> (error \<times> AssessmentSession) + AssessmentSession" where
  "addCheatingFlag type details severity now s =
     (case cheatingDetails s of
        None \<Rightarrow> Inl (TypeError, s)
      | Some ds \<Rightarrow>
          Inr (s\<lparr>cheatingDetails :=
                   Some (ds @ [\<lparr>cf_type = type, cf_details = details, cf_timestamp = now,
                                cf_severity = (case severity of None \<Rightarrow> Medium | Some v \<Rightarrow> v)\<rparr>]),
                 hasCheatingFlags := True\<rparr>))"

text \<open>
  \<^verbatim>\<open>checkAnswerCorrectness\<close>: \<^verbatim>\<open>sort()\<close> without a comparator orders strings by their
  code units, here the lexicographic order of the character codes.
\<close>

definition checkAnswerCorrectness :: "AssessmentQuestion \<Rightarrow> string list \<Rightarrow> bool" where
  "checkAnswerCorrectness question selectedAnswers =
     (if q_questionType question = MULTIPLE_CHOICE
      then
        (case q_options question of
           Some opts \<Rightarrow>
             (let correctOptions = map opt_id (filter opt_isCorrect opts);
                  sortedCorrect = sort correctOptions;
                  sortedSelected = sort selectedAnswers
              in length sortedCorrect = length sortedSelected
                 \<and> every_same_at sortedCorrect sortedSelected)
         | None \<Rightarrow> False)
      else False)"

definition submitAnswer ::
  "string \<Rightarrow> string list \<Rightarrow> int \<Rightarrow> Date \<Rightarrow> AssessmentSession
     \<Rightarrow> (error \<times> AssessmentSession) + AssessmentSession" where
  "submitAnswer questionId selectedAnswers timeSpent now s =
     (case find (\<lambda>q. q_questionId q = questionId) (questions s) of
        None \<Rightarrow> Inl (Error ''Question not found in session'', s)
      | Some question \<Rightarrow>
          (let existingAnswerIndex = findIndex (\<lambda>a. a_questionId a = questionId) (answers s);
               isCorrect = checkAnswerCorrectness question selectedAnswers;
               pointsEarned = (if isCorrect then q_points question else 0);
               answerData =
                 \<lparr>a_questionId = questionId,
                  a_selectedAnswers = selectedAnswers,
                  a_timeSpent = timeSpent,
                  a_isCorrect = isCorrect,
                  a_pointsEarned = pointsEarned,
                  a_answeredAt = now,
                  a_changedAnswers =
                    (if existingAnswerIndex \<ge> 0
                     then a_changedAnswers (answers s ! nat existingAnswerIndex) + 1
                     else 0),
                  a_tabSwitches = 0,
                  a_copyPasteDetected = False\<rparr>;
               s1 = (if existingAnswerIndex \<ge> 0
                     then s\<lparr>answers := (answers s)[nat existingAnswerIndex := answerData]\<rparr>
                     else s\<lparr>answers := answers s @ [answerData]\<rparr>)
           in Inr (if status s1 = NOT_STARTED then s1\<lparr>status := IN_PROGRESS\<rparr> else s1)))"

definition getRemainingTime :: "Date \<Rightarrow> AssessmentSession \<Rightarrow> int" where
  "getRemainingTime now s =
     (case startTime s of
        None \<Rightarrow> 0
      | Some start \<Rightarrow>
          if isCompleted s then 0
          else
            (let elapsedMs = now - start;
                 elapsedSeconds = elapsedMs div 1000;
                 remainingSeconds = max 0 (timeAllowed s - elapsedSeconds)
             in remainingSeconds))"


definition markCompleted :: "Date \<Rightarrow> AssessmentSession \<Rightarrow> AssessmentSession" where
  "markCompleted now s =
     (if isCompleted s then s
      else
        (let results = calculateScore s;
             achievedLevel = determineLevel s;
             s1 = s\<lparr>score := Some (r_score results),
                    percentage := Some (r_percentage results),
                    levelAchieved := achievedLevel,
                    passed := (r_percentage results \<ge> 25)\<rparr>;
             s2 = s1\<lparr>canProceedToNextStep := canProceedToNext s1\<rparr>;
             s3 = s2\<lparr>isCompleted := True, isSubmitted := True, endTime := Some now,
                      status := COMPLETED\<rparr>;
             s4 = (if canProceedToNextStep s3 then s3\<lparr>nextStepUnlockedAt := Some now\<rparr> else s3)
         in pre_save now s4))"

subsection \<open>The progress document\<close>

record CompetencyScore =
  cs_competency :: DigitalCompetency
  cs_score :: int
  cs_level :: AssessmentLevel
  cs_questionsAttempted :: int
  cs_correctAnswers :: int
  cs_lastUpdated :: Date

record Achievement =
  ach_id :: string
  ach_name :: string
  ach_description :: string
  ach_type :: string
  ach_unlockedAt :: Date
  ach_iconUrl :: "string option"

record AssessmentProgress =
  p_userId :: string
  currentStep :: int
  highestLevelAchieved :: AssessmentLevel
  step1Completed :: bool
  step1Score :: "int option"
  step1Level :: "AssessmentLevel option"
  step1CompletedAt :: "Date option"
  step2Completed :: bool
  step2Score :: "int option"
  step2Level :: "AssessmentLevel option"
  step2CompletedAt :: "Date option"
  step3Completed :: bool
  step3Score :: "int option"
  step3Level :: "AssessmentLevel option"
  step3CompletedAt :: "Date option"
  totalAssessmentsTaken :: int
  totalTimeSpent :: int
  averageScore :: int
  competencyScores :: "CompetencyScore list"
  canRetakeStep1 :: bool
  nextAssessmentDate :: "Date option"
  achievements :: "Achievement list"

subsection \<open>Progress methods\<close>

text \<open>\<^verbatim>\<open>[a, b, c].filter(...)\<close> keeping the fields that are set.\<close>

definition set_fields :: "'a option list \<Rightarrow> 'a list" where
  "set_fields xs = map the (filter (\<lambda>x. x \<noteq> None) xs)"

definition levelOrder :: "AssessmentLevel list" where
  "levelOrder = [A1, A2, B1, B2, C1, C2]"

text \<open>The pre-save hook of the progress schema.\<close>

definition pre_save_progress :: "AssessmentProgress \<Rightarrow> AssessmentProgress" where
  "pre_save_progress p =
     (let p1 = (if step3Completed p then p\<lparr>currentStep := 3\<rparr>
                else if step2Completed p then p\<lparr>currentStep := 3\<rparr>
                else if step1Completed p then p\<lparr>currentStep := 2\<rparr>
                else p\<lparr>currentStep := 1\<rparr>);
          levels = set_fields [step1Level p1, step2Level p1, step3Level p1];
          p2 = (case map (indexOf levelOrder) levels of
                  [] \<Rightarrow> p1
                | i # is \<Rightarrow>
                    (let highestIndex = foldl max i is
                     in if highestIndex \<ge> 0
                        then p1\<lparr>highestLevelAchieved := levelOrder ! nat highestIndex\<rparr>
                        else p1));
          scores = set_fields [step1Score p2, step2Score p2, step3Score p2]
      in if length scores > 0
         then p2\<lparr>averageScore :=
                   js_round (of_int (foldl (\<lambda>sum score. sum + score) 0 scores)
                             / of_int (int (length scores)))\<rparr>
         else p2)"

definition updateStepProgress ::
  "int \<Rightarrow> int \<Rightarrow> AssessmentLevel \<Rightarrow> Date \<Rightarrow> AssessmentProgress \<Rightarrow> AssessmentProgress" where
  "updateStepProgress stp scr level now p =
     (let p1 =
            (if stp = 1 then
               (let q = p\<lparr>step1Completed := True, step1Score := Some scr,
                          step1Level := Some level, step1CompletedAt := Some now\<rparr>
                in if scr < 25 then q\<lparr>canRetakeStep1 := False\<rparr> else q)
             else if stp = 2 then
               p\<lparr>step2Completed := True, step2Score := Some scr,
                  step2Level := Some level, step2CompletedAt := Some now\<rparr>
             else if stp = 3 then
               p\<lparr>step3Completed := True, step3Score := Some scr,
                  step3Level := Some level, step3CompletedAt := Some now\<rparr>
             else p)
      in pre_save_progress (p1\<lparr>totalAssessmentsTaken := totalAssessmentsTaken p1 + 1\<rparr>))"

text \<open>
  \<^verbatim>\<open>updateCompetencyScore\<close>: the two trailing parameters default to 1 and 0 when the
  caller leaves them out.
\<close>

definition updateCompetencyScore ::
  "DigitalCompetency \<Rightarrow> int \<Rightarrow> AssessmentLevel \<Rightarrow> int option \<Rightarrow> int option \<Rightarrow> Date
     \<Rightarrow> AssessmentProgress \<Rightarrow> AssessmentProgress" where
  "updateCompetencyScore competency scr level questionsAttempted correctAnswers now p =
     (let qa = (case questionsAttempted of None \<Rightarrow> 1 | Some v \<Rightarrow> v);
          ca = (case correctAnswers of None \<Rightarrow> 0 | Some v \<Rightarrow> v);
          existingIndex = findIndex (\<lambda>cs. cs_competency cs = competency) (competencyScores p);
          p1 =
            (if existingIndex \<ge> 0 then
               (let existing = competencyScores p ! nat existingIndex;
                    existing' = existing\<lparr>cs_score := max (cs_score existing) scr,
                                          cs_level := level,
                                          cs_questionsAttempted := cs_questionsAttempted existing + qa,
                                          cs_correctAnswers := cs_correctAnswers existing + ca,
                                          cs_lastUpdated := now\<rparr>
                in p\<lparr>competencyScores := (competencyScores p)[nat existingIndex := existing']\<rparr>)
             else
               p\<lparr>competencyScores := competencyScores p @
                    [\<lparr>cs_competency = competency, cs_score = scr, cs_level = level,
                      cs_questionsAttempted = qa, cs_correctAnswers = ca,
                      cs_lastUpdated = now\<rparr>]\<rparr>)
      in pre_save_progress p1)"

definition addAchievement :: "Achievement \<Rightarrow> AssessmentProgress \<Rightarrow> AssessmentProgress" where
  "addAchievement achievement p =
     (case find (\<lambda>a. ach_id a = ach_id achievement) (achievements p) of
        None \<Rightarrow> pre_save_progress (p\<lparr>achievements := achievements p @ [achievement]\<rparr>)
      | Some existingAchievement \<Rightarrow> p)"

text \<open>\<^verbatim>\<open>x || 0\<close> on an optional number: an absent value and 0 both give 0.\<close>

definition or_zero :: "int option \<Rightarrow> int" where
  "or_zero x = (case x of None \<Rightarrow> 0 | Some v \<Rightarrow> if v = 0 then 0 else v)"

definition canTakeStep :: "AssessmentProgress \<Rightarrow> int \<Rightarrow> bool" where
  "canTakeStep p stp =
     (if stp = 1 then canRetakeStep1 p \<or> \<not> step1Completed p
      else if stp = 2 then step1Completed p \<and> or_zero (step1Score p) \<ge> 75
      else if stp = 3 then step2Completed p \<and> or_zero (step2Score p) \<ge> 75
      else False)"

definition getNextAvailableStep :: "AssessmentProgress \<Rightarrow> int option" where
  "getNextAvailableStep p =
     (if canTakeStep p 1 then Some 1
      else if canTakeStep p 2 then Some 2
      else if canTakeStep p 3 then Some 3
      else None)"

subsection \<open>Notions used to state the properties\<close>

text \<open>The sum of the points of all questions of the snapshot, and of the points earned.\<close>

definition totalPossiblePoints :: "AssessmentSession \<Rightarrow> int" where
  "totalPossiblePoints s = sum_list (map q_points (questions s))"

definition earnedPoints :: "AssessmentSession \<Rightarrow> int" where
  "earnedPoints s = sum_list (map a_pointsEarned (answers s))"

text \<open>The question of the snapshot that an id denotes, and the answer entries recorded for it.\<close>

definition question_of :: "AssessmentSession \<Rightarrow> string \<Rightarrow> AssessmentQuestion option" where
  "question_of s qid = find (\<lambda>q. q_questionId q = qid) (questions s)"

definition entries_for :: "AssessmentSession \<Rightarrow> string \<Rightarrow> AssessmentAnswer list" where
  "entries_for s qid = filter (\<lambda>a. a_questionId a = qid) (answers s)"

text \<open>The ids of the options marked correct in an embedded question.\<close>

definition correct_ids :: "AssessmentQuestion \<Rightarrow> string list" where
  "correct_ids q =
     (case q_options q of None \<Rightarrow> [] | Some opts \<Rightarrow> map opt_id (filter opt_isCorrect opts))"

text \<open>
  A session as the schema creates it: no answers yet, every question worth at least one
  point (the \<^verbatim>\<open>min: 1\<close> validator of \<^verbatim>\<open>points\<close>).
\<close>

definition initial_session :: "AssessmentSession \<Rightarrow> bool" where
  "initial_session s = (answers s = [] \<and> list_all (\<lambda>q. 1 \<le> q_points q) (questions s))"

text \<open>The sessions the engine can produce from a created one.\<close>

inductive reachable :: "AssessmentSession \<Rightarrow> bool" where
  created: "initial_session s \<Longrightarrow> reachable s"
| submitted: "reachable s \<Longrightarrow> submitAnswer qid sel t now s = Inr s' \<Longrightarrow> reachable s'"
| flagged: "reachable s \<Longrightarrow> addCheatingFlag ty d sev now s = Inr s' \<Longrightarrow> reachable s'"
| completed: "reachable s \<Longrightarrow> reachable (markCompleted now s)"
| saved: "reachable s \<Longrightarrow> reachable (pre_save now s)"

text \<open>
  What every reachable session keeps: one answer entry per question id, each entry scored
  from the question its id denotes, and positive points.
\<close>

definition answers_scored :: "AssessmentSession \<Rightarrow> bool" where
  "answers_scored s =
     (distinct (map a_questionId (answers s))
      \<and> list_all (\<lambda>q. 1 \<le> q_points q) (questions s)
      \<and> list_all
          (\<lambda>a. case question_of s (a_questionId a) of
                 None \<Rightarrow> False
               | Some q \<Rightarrow>
                   a_isCorrect a = checkAnswerCorrectness q (a_selectedAnswers a)
                   \<and> a_pointsEarned a = (if a_isCorrect a then q_points q else 0))
          (answers s))"

text \<open>The canonical ordering A1 < A2 < B1 < B2 < C1 < C2.\<close>

fun level_rank :: "AssessmentLevel \<Rightarrow> nat" where
  "level_rank A1 = 0"
| "level_rank A2 = 1"
| "level_rank B1 = 2"
| "level_rank B2 = 3"
| "level_rank C1 = 4"
| "level_rank C2 = 5"

text \<open>The operations of the progress tracker, and a run of them.\<close>

datatype progress_op =
    UpdateStepProgress int int AssessmentLevel Date
  | UpdateCompetencyScore DigitalCompetency int AssessmentLevel "int option" "int option" Date
  | AddAchievement Achievement
  | Save

fun apply_progress_op :: "AssessmentProgress \<Rightarrow> progress_op \<Rightarrow> AssessmentProgress" where
  "apply_progress_op p (UpdateStepProgress stp scr level now) =
     updateStepProgress stp scr level now p"
| "apply_progress_op p (UpdateCompetencyScore c scr level qa ca now) =
     updateCompetencyScore c scr level qa ca now p"
| "apply_progress_op p (AddAchievement a) = addAchievement a p"
| "apply_progress_op p Save = pre_save_progress p"

definition run_progress_ops :: "AssessmentProgress \<Rightarrow> progress_op list \<Rightarrow> AssessmentProgress" where
  "run_progress_ops p ops = foldl apply_progress_op p ops"

subsection \<open>Sample documents\<close>

definition sample_options :: "QuestionOption list" where
  "sample_options =
     [\<lparr>opt_id = ''a'', opt_text = ''first'', opt_isCorrect = True, opt_order = 1\<rparr>,
      \<lparr>opt_id = ''b'', opt_text = ''second'', opt_isCorrect = False, opt_order = 2\<rparr>]"

definition sample_question :: "string \<Rightarrow> QuestionType \<Rightarrow> AssessmentQuestion" where
  "sample_question qid ty =
     \<lparr>q_questionId = qid, q_order = 1, q_competency = ''computer_basics'', q_level = A1,
      q_points = 1, q_timeAllowed = 60, q_questionText = ''text'', q_questionType = ty,
      q_options = Some sample_options, q_imageUrl = None, q_audioUrl = None,
      q_videoUrl = None\<rparr>"

definition sample_session :: "AssessmentQuestion list \<Rightarrow> AssessmentSession" where
  "sample_session qs =
     \<lparr>userId = ''u1'', step = 1, status = NOT_STARTED, questions = qs,
      startTime = Some 0, endTime = None, timeAllowed = 1800, timeRemaining = None,
      answers = [], score = None, percentage = None, levelAchieved = None, passed = False,
      canProceedToNextStep = False, nextStepUnlockedAt = None, ipAddress = None,
      userAgent = None, browserFingerprint = None, isCompleted = False, isSubmitted = False,
      hasCheatingFlags = False, cheatingDetails = Some []\<rparr>"

definition sample_progress :: AssessmentProgress where
  "sample_progress =
     \<lparr>p_userId = ''u1'', currentStep = 1, highestLevelAchieved = A1,
      step1Completed = False, step1Score = None, step1Level = None, step1CompletedAt = None,
      step2Completed = False, step2Score = None, step2Level = None, step2CompletedAt = None,
      step3Completed = False, step3Score = None, step3Level = None, step3CompletedAt = None,
      totalAssessmentsTaken = 0, totalTimeSpent = 0, averageScore = 0, competencyScores = [],
      canRetakeStep1 = True, nextAssessmentDate = None, achievements = []\<rparr>"

text \<open>
  A caller that submits an answer and catches the error: the session is as the call has
  left it.
\<close>

definition submit_or_keep ::
  "string \<Rightarrow> string list \<Rightarrow> int \<Rightarrow> Date \<Rightarrow> AssessmentSession \<Rightarrow> AssessmentSession" where
  "submit_or_keep qid sel t now s =
     (case submitAnswer qid sel t now s of Inr s' \<Rightarrow> s' | Inl (e, s') \<Rightarrow> s')"

text \<open>
  Forty-four question ids, and the step-1 session of the first \<open>n\<close> of them as one-point
  questions, in which the first \<open>k\<close> are answered correctly and the others wrongly.
\<close>

definition sample_ids :: "string list" where
  "sample_ids = concat (map (\<lambda>a. map (\<lambda>b. [a, b]) ''0123456789x'') ''abcd'')"

definition scenario_session :: "nat \<Rightarrow> nat \<Rightarrow> AssessmentSession" where
  "scenario_session n k =
     foldl (\<lambda>s (qid, sel). submit_or_keep qid sel 30 1000 s)
       (sample_session (map (\<lambda>i. sample_question i MULTIPLE_CHOICE) (take n sample_ids)))
       (map (\<lambda>i. (i, [''a''])) (take k (take n sample_ids))
        @ map (\<lambda>i. (i, [''b''])) (drop k (take n sample_ids)))"

text \<open>
  A session of one multiple-choice question, as created, and after its question has been
  answered correctly at 1000 ms.
\<close>

definition one_question_session :: AssessmentSession where
  "one_question_session = sample_session [sample_question ''q1'' MULTIPLE_CHOICE]"

definition answered_session :: AssessmentSession where
  "answered_session = submit_or_keep ''q1'' [''a''] 10 1000 one_question_session"

text \<open>The one-question session completed at 5000 ms, with no answer given.\<close>

definition completed_session :: AssessmentSession where
  "completed_session = markCompleted 5000 one_question_session"

text \<open>Step 1 passed with 80 and no retake; step 1 failed with 10 and no retake.\<close>

definition passed_step1_progress :: AssessmentProgress where
  "passed_step1_progress =
     sample_progress\<lparr>step1Completed := True, step1Score := Some 80, step1Level := Some A2,
                     canRetakeStep1 := False\<rparr>"

definition failed_step1_progress :: AssessmentProgress where
  "failed_step1_progress = updateStepProgress 1 10 A1 7000 sample_progress"

text \<open>Steps 1 and 2 completed with 80 and 75.\<close>

definition two_step_progress :: AssessmentProgress where
  "two_step_progress =
     sample_progress\<lparr>step1Completed := True, step1Score := Some 80, step1Level := Some A2,
                     step2Completed := True, step2Score := Some 75, step2Level := Some B2\<rparr>"

text \<open>A session whose one question is a true-false question.\<close>

definition true_false_session :: AssessmentSession where
  "true_false_session = sample_session [sample_question ''q1'' TRUE_FALSE]"

section \<open>Properties\<close>

subsection \<open>Facts about the library functions\<close>

lemma findIndex_ge: "- 1 \<le> findIndex P xs"
  by (induction xs) (auto simp: Let_def)

lemma findIndex_nonneg_iff: "0 \<le> findIndex P xs \<longleftrightarrow> (\<exists>x\<in>set xs. P x)"
  using findIndex_ge [of P] by (induction xs) (auto simp: Let_def)

lemma findIndex_less: "findIndex P xs < int (length xs)"
  by (induction xs) (auto simp: Let_def)

lemma findIndex_sat: "0 \<le> findIndex P xs \<Longrightarrow> P (xs ! nat (findIndex P xs))"
  by (induction xs) (auto simp: Let_def nat_add_distrib split: if_splits)

lemma findIndex_first: "0 \<le> findIndex P xs \<Longrightarrow> j < nat (findIndex P xs) \<Longrightarrow> \<not> P (xs ! j)"
proof (induction xs arbitrary: j)
  case Nil
  then show ?case by simp
next
  case (Cons x xs)
  then show ?case
    by (cases j) (auto simp: Let_def nat_add_distrib split: if_splits)
qed

lemma foldl_plus_sum_list: "foldl (\<lambda>sum q. sum + f q) a xs = a + sum_list (map f xs)"
  for a :: int
  by (induction xs arbitrary: a) auto

lemma every_same_at_iff:
  "every_same_at xs ys \<longleftrightarrow> (\<forall>i<length xs. i < length ys \<and> xs ! i = ys ! i)"
  unfolding every_same_at_def by (simp add: list_all_length)

lemma every_same_at_eq: "length xs = length ys \<Longrightarrow> every_same_at xs ys \<longleftrightarrow> xs = ys"
  by (simp add: every_same_at_iff list_eq_iff_nth_eq)

subsection \<open>Completion\<close>

lemma pre_save_completed:
  "isCompleted s \<Longrightarrow> status s = COMPLETED \<Longrightarrow> endTime s = Some t \<Longrightarrow>
   pre_save now s =
     s\<lparr>hasCheatingFlags := (case cheatingDetails s of None \<Rightarrow> False | Some ds \<Rightarrow> length ds > 0)\<rparr>"
  by (simp add: pre_save_def split: option.splits)

text \<open>
  Claim C1. \<^verbatim>\<open>markCompleted\<close> on a session that is already completed returns it as it is.
  On any other session it stores the score and percentage of \<^verbatim>\<open>calculateScore\<close> and the level
  of \<^verbatim>\<open>determineLevel\<close>, sets \<open>passed\<close> iff the percentage is at least 25 and
  \<open>canProceedToNextStep\<close> iff the percentage is at least 75 and the step is below 3, sets the
  status to completed, \<open>isCompleted\<close> and \<open>isSubmitted\<close> to true and \<open>endTime\<close> to the
  current time, and stamps \<open>nextStepUnlockedAt\<close> exactly when \<open>canProceedToNextStep\<close> is true
  (the field keeps its value otherwise). Answers and questions are not touched.
\<close>

theorem C1_markCompleted:
  "(isCompleted s \<longrightarrow> markCompleted now s = s)
   \<and> (\<not> isCompleted s \<longrightarrow>
        (let s' = markCompleted now s; results = calculateScore s
         in score s' = Some (r_score results)
            \<and> percentage s' = Some (r_percentage results)
            \<and> levelAchieved s' = determineLevel s
            \<and> passed s' = (r_percentage results \<ge> 25)
            \<and> canProceedToNextStep s' = (r_percentage results \<ge> 75 \<and> step s < 3)
            \<and> status s' = COMPLETED
            \<and> isCompleted s' \<and> isSubmitted s'
            \<and> endTime s' = Some now
            \<and> nextStepUnlockedAt s' =
                 (if canProceedToNextStep s' then Some now else nextStepUnlockedAt s)
            \<and> answers s' = answers s \<and> questions s' = questions s))"
proof (cases "isCompleted s")
  case True
  then show ?thesis by (simp add: markCompleted_def)
next
  case False
  have cs: "calculateScore (s\<lparr>score := a, percentage := b, levelAchieved := c, passed := d\<rparr>)
              = calculateScore s" for a b c d
    by (simp add: calculateScore_def)
  define s4 where "s4 =
     (let results = calculateScore s;
          s1 = s\<lparr>score := Some (r_score results), percentage := Some (r_percentage results),
                 levelAchieved := determineLevel s, passed := (r_percentage results \<ge> 25)\<rparr>;
          s2 = s1\<lparr>canProceedToNextStep := canProceedToNext s1\<rparr>;
          s3 = s2\<lparr>isCompleted := True, isSubmitted := True, endTime := Some now,
                   status := COMPLETED\<rparr>
      in if canProceedToNextStep s3 then s3\<lparr>nextStepUnlockedAt := Some now\<rparr> else s3)"
  have m: "markCompleted now s = pre_save now s4"
    using False by (simp add: markCompleted_def s4_def Let_def)
  have f4: "isCompleted s4" "status s4 = COMPLETED" "endTime s4 = Some now"
    by (simp_all add: s4_def Let_def)
  have p: "pre_save now s4 =
     s4\<lparr>hasCheatingFlags := (case cheatingDetails s4 of None \<Rightarrow> False | Some ds \<Rightarrow> length ds > 0)\<rparr>"
    by (rule pre_save_completed [OF f4])
  have "score s4 = Some (r_score (calculateScore s))"
    "percentage s4 = Some (r_percentage (calculateScore s))"
    "levelAchieved s4 = determineLevel s"
    "passed s4 = (r_percentage (calculateScore s) \<ge> 25)"
    "canProceedToNextStep s4 = (r_percentage (calculateScore s) \<ge> 75 \<and> step s < 3)"
    "isSubmitted s4"
    "nextStepUnlockedAt s4 = (if canProceedToNextStep s4 then Some now else nextStepUnlockedAt s)"
    "answers s4 = answers s" "questions s4 = questions s"
    by (auto simp add: s4_def Let_def canProceedToNext_def cs)
  with f4 False show ?thesis
    by (simp add: m p Let_def)
qed

text \<open>
  Both branches at a sample session: completing an open session, then completing it again.
\<close>

theorem C1_markCompleted_witness:
  "isCompleted (markCompleted 5 (sample_session [sample_question ''q1'' MULTIPLE_CHOICE]))
   \<and> markCompleted 9 (markCompleted 5 (sample_session [sample_question ''q1'' MULTIPLE_CHOICE]))
       = markCompleted 5 (sample_session [sample_question ''q1'' MULTIPLE_CHOICE])
   \<and> \<not> isCompleted (sample_session [sample_question ''q1'' MULTIPLE_CHOICE])
   \<and> percentage (markCompleted 5 (sample_session [sample_question ''q1'' MULTIPLE_CHOICE])) = Some 0
   \<and> status (markCompleted 5 (sample_session [sample_question ''q1'' MULTIPLE_CHOICE])) = COMPLETED
   \<and> endTime (markCompleted 5 (sample_session [sample_question ''q1'' MULTIPLE_CHOICE])) = Some 5"
proof -
  let ?s = "sample_session [sample_question ''q1'' MULTIPLE_CHOICE]"
  have open_s: "\<not> isCompleted ?s" by (simp add: sample_session_def)
  have r: "r_percentage (calculateScore ?s) = 0"
    by (simp add: calculateScore_def sample_session_def)
  from C1_markCompleted [of ?s 5] open_s
  have a: "isCompleted (markCompleted 5 ?s)" "percentage (markCompleted 5 ?s) = Some 0"
    "status (markCompleted 5 ?s) = COMPLETED" "endTime (markCompleted 5 ?s) = Some 5"
    by (simp_all add: Let_def r)
  from C1_markCompleted [of "markCompleted 5 ?s" 9] a(1)
  have "markCompleted 9 (markCompleted 5 ?s) = markCompleted 5 ?s" by simp
  with a open_s show ?thesis by simp
qed

subsection \<open>Scoring\<close>

lemma js_round_0: "js_round 0 = 0"
proof -
  have "\<lfloor>1 / 2 :: rat\<rfloor> = 0" by (rule floor_unique) simp_all
  then show ?thesis by (simp add: js_round_def)
qed

lemma js_round_mono: "x \<le> y \<Longrightarrow> js_round x \<le> js_round y"
  by (simp add: js_round_def floor_mono)

subsection \<open>Rounding to doubles\<close>

lemma round_half_even_cases:
  "round_half_even x = \<lfloor>x\<rfloor> \<or> round_half_even x = \<lfloor>x\<rfloor> + 1"
  by (simp add: round_half_even_def Let_def)

lemma round_half_even_near:
  "\<bar>of_int (round_half_even x) - x\<bar> \<le> 1 / 2"
proof -
  have "of_int \<lfloor>x\<rfloor> \<le> x" "x < of_int \<lfloor>x\<rfloor> + 1" by linarith+
  then show ?thesis
    by (auto simp: round_half_even_def Let_def abs_le_iff)
qed

lemma round_half_even_of_int [simp]: "round_half_even (of_int n) = n"
  by (simp add: round_half_even_def)

lemma round_half_even_mono:
  assumes "x \<le> y"
  shows "round_half_even x \<le> round_half_even y"
proof (cases "\<lfloor>x\<rfloor> = \<lfloor>y\<rfloor>")
  case True
  with assms show ?thesis
    by (auto simp: round_half_even_def Let_def)
next
  case False
  with assms have "\<lfloor>x\<rfloor> + 1 \<le> \<lfloor>y\<rfloor>"
    using floor_mono [of x y] by linarith
  moreover have "round_half_even x \<le> \<lfloor>x\<rfloor> + 1"
    using round_half_even_cases [of x] by linarith
  moreover have "\<lfloor>y\<rfloor> \<le> round_half_even y"
    using round_half_even_cases [of y] by linarith
  ultimately show ?thesis by linarith
qed

lemma bitlen_bounds_rat:
  assumes "0 < n"
  shows "2 powi (bitlen n - 1) \<le> (of_int n :: rat)" and "(of_int n :: rat) < 2 powi bitlen n"
proof -
  from assms have b: "1 \<le> bitlen n"
    using bitlen_eq_zero_iff [of n] bitlen_nonneg [of n] by linarith
  from bitlen_bounds [OF assms]
  have lo: "2 ^ nat (bitlen n - 1) \<le> n" and hi: "n < 2 ^ nat (bitlen n)" by simp_all
  have "(2 :: rat) powi (bitlen n - 1) = 2 ^ nat (bitlen n - 1)"
    using b by (simp add: power_int_def)
  also have "\<dots> = of_int (2 ^ nat (bitlen n - 1))" by simp
  also from lo have "\<dots> \<le> of_int n" by (simp only: of_int_le_iff)
  finally show "2 powi (bitlen n - 1) \<le> (of_int n :: rat)" .
  from hi have "(of_int n :: rat) < of_int (2 ^ nat (bitlen n))" by (simp only: of_int_less_iff)
  also have "\<dots> = 2 ^ nat (bitlen n)" by simp
  also have "\<dots> = 2 powi bitlen n"
    using b by (simp add: power_int_def)
  finally show "(of_int n :: rat) < 2 powi bitlen n" .
qed

lemma binade_bounds:
  assumes "0 < x"
  shows "2 powi binade x \<le> x" and "x < 2 powi (binade x + 1)"
proof -
  obtain p q where pq: "quotient_of x = (p, q)" by (cases "quotient_of x")
  then have q: "0 < q" and x: "x = of_int p / of_int q"
    by (simp_all add: quotient_of_denom_pos quotient_of_div)
  from assms x q have p: "0 < p" by (simp add: zero_less_divide_iff)
  let ?d = "bitlen p - bitlen q"
  note bp = bitlen_bounds_rat [OF p] and bq = bitlen_bounds_rat [OF q]
  from q have q': "(0 :: rat) < of_int q" by simp
  have up: "x < 2 powi (?d + 1)"
  proof -
    have "x < 2 powi bitlen p / of_int q"
      unfolding x using bp(2) q' by (simp add: divide_strict_right_mono)
    also have "\<dots> \<le> 2 powi bitlen p / 2 powi (bitlen q - 1)"
      using bq(1) q' by (intro divide_left_mono mult_pos_pos) simp_all
    also have "\<dots> = 2 powi (bitlen p - (bitlen q - 1))"
      by (simp add: power_int_diff)
    finally show ?thesis by (simp add: algebra_simps)
  qed
  have low: "2 powi (?d - 1) < x"
  proof -
    have "(2 :: rat) powi (?d - 1) = 2 powi (bitlen p - 1 - bitlen q)" by (simp add: algebra_simps)
    also have "\<dots> = 2 powi (bitlen p - 1) / 2 powi bitlen q"
      by (simp add: power_int_diff)
    also have "\<dots> < 2 powi (bitlen p - 1) / of_int q"
      using bq(2) q' by (intro divide_strict_left_mono) simp_all
    also have "\<dots> \<le> x"
      unfolding x using bp(1) q' by (simp add: divide_right_mono)
    finally show ?thesis .
  qed
  have b: "binade x = (if 2 powi ?d \<le> x then ?d else ?d - 1)"
    by (simp add: binade_def pq Let_def)
  show "2 powi binade x \<le> x" using low by (simp add: b)
  show "x < 2 powi (binade x + 1)" using up by (auto simp: b)
qed

lemma binade_mono:
  assumes "0 < x" "x \<le> y"
  shows "binade x \<le> binade y"
proof (rule ccontr)
  assume "\<not> binade x \<le> binade y"
  then have "binade y + 1 \<le> binade x" by simp
  then have "(2 :: rat) powi (binade y + 1) \<le> 2 powi binade x"
    by (intro power_int_increasing) simp_all
  moreover from assms have "0 < y" by simp
  ultimately have "y < x"
    using binade_bounds(2) [of y] binade_bounds(1) [OF assms(1)] by linarith
  with assms(2) show False by simp
qed

lemma to_double_pos:
  assumes "0 < x"
  shows "to_double x = of_int (round_half_even (x / 2 powi (binade x - 52))) * 2 powi (binade x - 52)"
  using assms by (simp add: to_double_def Let_def)

lemma scaled_binade:
  assumes "0 < x"
  shows "2 ^ 52 \<le> x / 2 powi (binade x - 52)" and "x / 2 powi (binade x - 52) < 2 ^ 53"
proof -
  let ?u = "(2 :: rat) powi (binade x - 52)"
  have u: "0 < ?u" by simp
  have e: "2 powi binade x = 2 ^ 52 * ?u"
    using power_int_add [of "2 :: rat" 52 "binade x - 52"] by simp
  have e1: "2 powi (binade x + 1) = 2 ^ 53 * ?u"
    using power_int_add [of "2 :: rat" 53 "binade x - 52"] by (simp add: add.commute)
  from binade_bounds(1) [OF assms] e u show "2 ^ 52 \<le> x / ?u"
    by (simp add: pos_le_divide_eq)
  from binade_bounds(2) [OF assms] e1 u show "x / ?u < 2 ^ 53"
    by (simp add: pos_divide_less_eq)
qed

lemma to_double_pos_bounds:
  assumes "0 < x"
  shows "2 powi binade x \<le> to_double x" and "to_double x \<le> 2 powi (binade x + 1)"
proof -
  let ?u = "(2 :: rat) powi (binade x - 52)"
  let ?k = "round_half_even (x / ?u)"
  have u: "0 < ?u" by simp
  have e: "2 powi binade x = 2 ^ 52 * ?u"
    using power_int_add [of "2 :: rat" 52 "binade x - 52"] by simp
  have e1: "2 powi (binade x + 1) = 2 ^ 53 * ?u"
    using power_int_add [of "2 :: rat" 53 "binade x - 52"] by (simp add: add.commute)
  from round_half_even_mono [OF scaled_binade(1) [OF assms]]
  have "round_half_even (of_int (2 ^ 52)) \<le> ?k" by simp
  then have lo: "2 ^ 52 \<le> ?k" by (simp only: round_half_even_of_int)
  from scaled_binade(2) [OF assms] have "x / ?u \<le> of_int (2 ^ 53)" by simp
  from round_half_even_mono [OF this]
  have hi: "?k \<le> 2 ^ 53" by (simp only: round_half_even_of_int)
  from lo have "(2 :: rat) ^ 52 \<le> of_int ?k"
    by (metis of_int_le_iff of_int_numeral of_int_power)
  with u show "2 powi binade x \<le> to_double x"
    by (simp only: to_double_pos [OF assms] e mult_le_cancel_right_pos)
  from hi have "of_int ?k \<le> (2 :: rat) ^ 53"
    by (metis of_int_le_iff of_int_numeral of_int_power)
  with u show "to_double x \<le> 2 powi (binade x + 1)"
    by (simp only: to_double_pos [OF assms] e1 mult_le_cancel_right_pos)
qed

lemma to_double_zero [simp]: "to_double 0 = 0"
  by (simp add: to_double_def)

lemma to_double_pos_pos: "0 < x \<Longrightarrow> 0 < to_double x"
  using to_double_pos_bounds(1) [of x] zero_less_power_int [of "2 :: rat" "binade x"]
  by linarith

lemma to_double_minus: "to_double (- x) = - to_double x"
  by (simp add: to_double_def Let_def)

lemma to_double_mono_pos:
  assumes "0 < x" "x \<le> y"
  shows "to_double x \<le> to_double y"
proof -
  from assms have y: "0 < y" by simp
  from binade_mono [OF assms] consider "binade x = binade y" | "binade x + 1 \<le> binade y"
    by linarith
  then show ?thesis
  proof cases
    case 1
    let ?u = "(2 :: rat) powi (binade y - 52)"
    have u: "0 < ?u" by simp
    from assms(2) u have "x / ?u \<le> y / ?u" by (simp add: divide_right_mono)
    then have "round_half_even (x / ?u) \<le> round_half_even (y / ?u)"
      by (rule round_half_even_mono)
    then have "(of_int (round_half_even (x / ?u)) :: rat) \<le> of_int (round_half_even (y / ?u))"
      by (simp only: of_int_le_iff)
    with u show ?thesis
      by (simp only: to_double_pos [OF assms(1)] to_double_pos [OF y] 1 mult_le_cancel_right_pos)
  next
    case 2
    then have "(2 :: rat) powi (binade x + 1) \<le> 2 powi binade y"
      by (intro power_int_increasing) simp_all
    with to_double_pos_bounds(2) [OF assms(1)] to_double_pos_bounds(1) [OF y]
    show ?thesis by linarith
  qed
qed

lemma to_double_mono:
  assumes "x \<le> y"
  shows "to_double x \<le> to_double y"
proof -
  consider "0 < x" | "x = 0" "y = 0" | "x = 0" "0 < y" | "x < 0" "y < 0" | "x < 0" "0 \<le> y"
    using assms by linarith
  then show ?thesis
  proof cases
    case 1
    then show ?thesis using assms by (rule to_double_mono_pos)
  next
    case 2
    then show ?thesis by simp
  next
    case 3
    then show ?thesis using to_double_pos_pos [of y] by simp
  next
    case 4
    then have "0 < - y" "- y \<le> - x" using assms by simp_all
    from to_double_mono_pos [OF this] show ?thesis by (simp add: to_double_minus)
  next
    case 5
    from 5(1) have "0 < to_double (- x)" by (intro to_double_pos_pos) simp
    then have "to_double x < 0" by (simp add: to_double_minus)
    moreover from 5(2) have "0 \<le> to_double y"
      using to_double_pos_pos [of y] by (cases "y = 0") (simp_all add: less_le)
    ultimately show ?thesis by linarith
  qed
qed

lemma to_double_error_pos:
  assumes "0 \<le> x"
  shows "\<bar>to_double x - x\<bar> \<le> x / 2 ^ 53"
proof (cases "x = 0")
  case True
  then show ?thesis by simp
next
  case False
  with assms have x: "0 < x" by simp
  let ?u = "(2 :: rat) powi (binade x - 52)"
  let ?k = "round_half_even (x / ?u)"
  have u: "0 < ?u" by simp
  have e: "2 powi binade x = 2 ^ 52 * ?u"
    using power_int_add [of "2 :: rat" 52 "binade x - 52"] by simp
  have "to_double x - x = (of_int ?k - x / ?u) * ?u"
    using u by (simp add: to_double_pos [OF x] algebra_simps)
  then have "\<bar>to_double x - x\<bar> = \<bar>of_int ?k - x / ?u\<bar> * ?u"
    using u by (simp add: abs_mult)
  also have "\<dots> \<le> 1 / 2 * ?u"
    using round_half_even_near [of "x / ?u"] u by (intro mult_right_mono) simp_all
  also have "\<dots> = 2 powi binade x / 2 ^ 53" by (simp add: e)
  also have "\<dots> \<le> x / 2 ^ 53"
    using binade_bounds(1) [OF x] by (intro divide_right_mono) simp_all
  finally show ?thesis .
qed

lemma to_double_one [simp]: "to_double 1 = 1"
  by code_simp

lemma to_double_hundred [simp]: "to_double 100 = 100"
  by code_simp


lemma double_percentage_mono:
  fixes a b t :: int
  assumes "a \<le> b" "0 < t"
  shows "js_round (to_double (to_double (of_int a / of_int t) * 100))
         \<le> js_round (to_double (to_double (of_int b / of_int t) * 100))"
proof -
  from assms have "(of_int a :: rat) / of_int t \<le> of_int b / of_int t"
    by (simp add: divide_right_mono)
  then have "to_double (of_int a / of_int t) \<le> to_double (of_int b / of_int t)"
    by (rule to_double_mono)
  then have "to_double (of_int a / of_int t) * 100 \<le> to_double (of_int b / of_int t) * 100"
    by simp
  then show ?thesis by (intro js_round_mono to_double_mono)
qed

lemma double_quotient_unit:
  fixes e t :: int
  assumes "0 \<le> e" "e \<le> t" "0 < t"
  shows "0 \<le> to_double (of_int e / of_int t)" and "to_double (of_int e / of_int t) \<le> 1"
proof -
  from assms have "(0 :: rat) \<le> of_int e / of_int t" "(of_int e :: rat) / of_int t \<le> 1"
    by simp_all
  from to_double_mono [OF this(1)] to_double_mono [OF this(2)]
  show "0 \<le> to_double (of_int e / of_int t)" and "to_double (of_int e / of_int t) \<le> 1"
    by simp_all
qed

lemma double_percentage_range:
  fixes e t :: int
  assumes "0 \<le> e" "e \<le> t" "0 < t"
  shows "0 \<le> js_round (to_double (to_double (of_int e / of_int t) * 100))"
    and "js_round (to_double (to_double (of_int e / of_int t) * 100)) \<le> 100"
proof -
  let ?m = "to_double (of_int e / of_int t) * 100"
  from double_quotient_unit [OF assms] have "0 \<le> ?m" "?m \<le> 100" by simp_all
  from to_double_mono [OF this(1)] to_double_mono [OF this(2)]
  have w: "0 \<le> to_double ?m" "to_double ?m \<le> 100" by simp_all
  from w(1) show "0 \<le> js_round (to_double ?m)" by (simp add: js_round_def)
  from w(2) have "to_double ?m + 1 / 2 < 101" by simp
  then have "\<lfloor>to_double ?m + 1 / 2\<rfloor> < 101" by (simp add: floor_less_iff)
  then show "js_round (to_double ?m) \<le> 100" by (simp add: js_round_def)
qed

lemma double_percentage_error:
  fixes e t :: int
  assumes "0 \<le> e" "e \<le> t" "0 < t"
  shows "\<bar>to_double (to_double (of_int e / of_int t) * 100) - of_int e / of_int t * 100\<bar>
         \<le> 200 * (1 / 2 ^ 53)"
proof -
  define eps :: rat where "eps = 1 / 2 ^ 53"
  define q :: rat where "q = of_int e / of_int t"
  define m where "m = to_double q * 100"
  have eps: "0 \<le> eps" by (simp add: eps_def)
  have err: "\<bar>to_double x - x\<bar> \<le> x * eps" if "0 \<le> x" for x
    using to_double_error_pos [OF that] by (simp add: eps_def)
  from assms have q: "0 \<le> q" "q \<le> 1" by (simp_all add: q_def)
  from double_quotient_unit [OF assms] have m: "0 \<le> m" "m \<le> 100"
    by (simp_all add: m_def q_def)
  from q(2) eps have "q * eps \<le> 1 * eps" by (rule mult_right_mono)
  with err [OF q(1)] have a: "\<bar>to_double q - q\<bar> \<le> eps" by simp
  from m(2) eps have "m * eps \<le> 100 * eps" by (rule mult_right_mono)
  with err [OF m(1)] have b: "\<bar>to_double m - m\<bar> \<le> 100 * eps" by linarith
  from a have "\<bar>m - q * 100\<bar> \<le> 100 * eps" unfolding m_def by linarith
  with b have "\<bar>to_double m - q * 100\<bar> \<le> 200 * eps" by linarith
  then show ?thesis by (simp only: eps_def m_def q_def)
qed

lemma double_percentage_near:
  fixes e t :: int
  assumes "0 \<le> e" "e \<le> t" "0 < t" "t \<le> 2 ^ 44"
  shows "\<bar>of_int (js_round (to_double (to_double (of_int e / of_int t) * 100)))
          - of_int e / of_int t * (100 :: rat)\<bar> \<le> 1 / 2"
proof -
  define eps :: rat where "eps = 1 / 2 ^ 53"
  define w where "w = to_double (to_double (of_int e / of_int t) * 100)"
  define v :: rat where "v = of_int e / of_int t * 100"
  define T :: rat where "T = of_int t"
  define E :: rat where "E = of_int e"
  define P :: rat where "P = of_int (js_round w)"
  have eps: "0 \<le> eps" by (simp add: eps_def)
  from assms(3) have T: "0 < T" by (simp add: T_def)
  have tv: "T * v = 100 * E" using T by (simp add: T_def v_def E_def)
  have ints: "2 * T * P = of_int (2 * t * js_round w)"
    "200 * E + T + 1 = of_int (200 * e + t + 1)" "200 * E + T = of_int (200 * e + t)"
    "200 * E - T - 1 = of_int (200 * e - t - 1)" "200 * E - T = of_int (200 * e - t)"
    by (simp_all add: T_def P_def E_def)
  from double_percentage_error [OF assms(1-3)]
  have "\<bar>w - v\<bar> \<le> 200 * eps" by (simp only: w_def v_def eps_def)
  then have w: "v - 200 * eps \<le> w" "w \<le> v + 200 * eps" by linarith+
  have "of_int (js_round w) \<le> w + 1 / 2" "w + 1 / 2 < of_int (js_round w) + 1"
    unfolding js_round_def by linarith+
  with w have p: "P \<le> v + 1 / 2 + 200 * eps" "v - 1 / 2 - 200 * eps < P"
    unfolding P_def by linarith+
  from assms(4) have "(of_int t :: rat) \<le> of_int (2 ^ 44)" by (simp only: of_int_le_iff)
  then have "T \<le> 2 ^ 44" by (simp add: T_def)
  from this eps have "T * eps \<le> 2 ^ 44 * eps" by (rule mult_right_mono)
  also have "\<dots> = 1 / 512" by (simp add: eps_def)
  finally have c: "T * eps \<le> 1 / 512" .
  have "2 * T * P \<le> 2 * T * (v + 1 / 2 + 200 * eps)"
    using p(1) T by (intro mult_left_mono) simp_all
  also have "\<dots> = 2 * (T * v) + T + 400 * (T * eps)" by (simp add: algebra_simps)
  finally have "2 * T * P < 200 * E + T + 1" using c tv by linarith
  then have "2 * t * js_round w < 200 * e + t + 1" by (simp only: ints of_int_less_iff)
  then have "2 * t * js_round w \<le> 200 * e + t" by simp
  then have "2 * T * P \<le> 200 * E + T" by (simp only: ints of_int_le_iff)
  then have "2 * T * P \<le> 2 * (T * v) + T" using tv by linarith
  also have "\<dots> = 2 * T * (v + 1 / 2)" by (simp add: algebra_simps)
  finally have up: "P \<le> v + 1 / 2" using T by simp
  have "2 * T * (v - 1 / 2 - 200 * eps) < 2 * T * P"
    using p(2) T by (intro mult_strict_left_mono) simp_all
  moreover have "2 * T * (v - 1 / 2 - 200 * eps) = 2 * (T * v) - T - 400 * (T * eps)"
    by (simp add: algebra_simps)
  ultimately have "200 * E - T - 1 < 2 * T * P" using c tv by linarith
  then have "200 * e - t - 1 < 2 * t * js_round w" by (simp only: ints of_int_less_iff)
  then have "200 * e - t \<le> 2 * t * js_round w" by simp
  then have "200 * E - T \<le> 2 * T * P" by (simp only: ints of_int_le_iff)
  then have "2 * (T * v) - T \<le> 2 * T * P" using tv by linarith
  moreover have "2 * (T * v) - T = 2 * T * (v - 1 / 2)" by (simp add: algebra_simps)
  ultimately have "2 * T * (v - 1 / 2) \<le> 2 * T * P" by simp
  then have lo: "v - 1 / 2 \<le> P" using T by simp
  from up lo have "\<bar>P - v\<bar> \<le> 1 / 2" by linarith
  then show ?thesis by (simp only: P_def v_def w_def)
qed

lemma near_is_round_unless_half:
  fixes p :: int and v :: rat
  assumes "\<bar>of_int p - v\<bar> \<le> 1 / 2"
  shows "p = js_round v \<or> of_int p = v - 1 / 2"
proof (cases "of_int p = v - 1 / 2")
  case True
  then show ?thesis by simp
next
  case False
  from assms have "v - 1 / 2 \<le> of_int p" "of_int p \<le> v + 1 / 2" by linarith+
  with False have "of_int p \<le> v + 1 / 2" "v + 1 / 2 < of_int p + 1" by linarith+
  then have "\<lfloor>v + 1 / 2\<rfloor> = p" by (intro floor_unique) simp_all
  then show ?thesis by (simp add: js_round_def)
qed

subsection \<open>The score of a session\<close>

lemma calculateScore_score: "r_score (calculateScore s) = earnedPoints s"
  by (simp add: calculateScore_def earnedPoints_def foldl_plus_sum_list Let_def)

lemma calculateScore_percentage:
  "r_percentage (calculateScore s) =
     (if totalPossiblePoints s > 0
      then js_round
             (to_double (to_double (of_int (earnedPoints s) / of_int (totalPossiblePoints s)) * 100))
      else 0)"
  by (simp add: calculateScore_def earnedPoints_def totalPossiblePoints_def
        foldl_plus_sum_list Let_def js_round_0)

lemma sum_set_le_sum_list:
  fixes f :: "'a \<Rightarrow> int"
  assumes "\<forall>x\<in>set xs. 0 \<le> f x"
  shows "sum f (set xs) \<le> sum_list (map f xs)"
  using assms
proof (induction xs)
  case Nil
  then show ?case by simp
next
  case (Cons x xs)
  show ?case
  proof (cases "x \<in> set xs")
    case True
    then have i: "insert x (set xs) = set xs" by auto
    from Cons.prems have "0 \<le> f x" by simp
    moreover from Cons have "sum f (set xs) \<le> sum_list (map f xs)" by simp
    ultimately show ?thesis by (simp add: i)
  next
    case False
    with Cons show ?thesis by simp
  qed
qed

lemma find_Some_props: "find P xs = Some x \<Longrightarrow> P x \<and> x \<in> set xs"
  by (induction xs) (auto split: if_splits)

lemma earned_le_total_lists:
  fixes pe :: "'a \<Rightarrow> int" and pts :: "'q \<Rightarrow> int"
  assumes d: "distinct (map aid as)"
    and m: "\<forall>a\<in>set as. \<exists>q. find (\<lambda>q. qid q = aid a) qs = Some q \<and> pe a \<le> pts q"
    and n: "\<forall>q\<in>set qs. 0 \<le> pts q"
  shows "sum_list (map pe as) \<le> sum_list (map pts qs)"
proof -
  define f where "f a = the (find (\<lambda>q. qid q = aid a) qs)" for a
  have fa: "qid (f a) = aid a \<and> f a \<in> set qs \<and> pe a \<le> pts (f a)" if "a \<in> set as" for a
  proof -
    from m that obtain q where q: "find (\<lambda>q. qid q = aid a) qs = Some q" "pe a \<le> pts q"
      by blast
    then show ?thesis using find_Some_props [OF q(1)] by (simp add: f_def)
  qed
  have "map aid as = map qid (map f as)"
    using fa by simp
  with d have df: "distinct (map f as)"
    by (metis distinct_map)
  have sub: "set (map f as) \<subseteq> set qs" using fa by auto
  have "sum_list (map pe as) \<le> sum_list (map (\<lambda>a. pts (f a)) as)"
    by (rule sum_list_mono) (use fa in blast)
  also have "\<dots> = sum_list (map pts (map f as))" by (simp add: comp_def)
  also have "\<dots> = sum pts (set (map f as))"
    using df by (rule sum_list_distinct_conv_sum_set)
  also have "\<dots> \<le> sum pts (set qs)"
    by (rule sum_mono2) (use sub n in auto)
  also have "\<dots> \<le> sum_list (map pts qs)"
    by (rule sum_set_le_sum_list) (rule n)
  finally show ?thesis .
qed

lemma count_le_lists:
  assumes d: "distinct (map aid as)"
    and m: "\<forall>a\<in>set as. \<exists>q. find (\<lambda>q. qid q = aid a) qs = Some q"
  shows "length as \<le> length qs"
proof -
  have "set (map aid as) \<subseteq> set (map qid qs)"
  proof
    fix i assume "i \<in> set (map aid as)"
    then obtain a where a: "a \<in> set as" "i = aid a" by auto
    with m obtain q where "find (\<lambda>q. qid q = aid a) qs = Some q" by blast
    from find_Some_props [OF this] a show "i \<in> set (map qid qs)" by force
  qed
  then have "card (set (map aid as)) \<le> card (set (map qid qs))"
    by (simp add: card_mono)
  also have "\<dots> \<le> length (map qid qs)" by (rule card_length)
  finally have "card (set (map aid as)) \<le> length qs" by simp
  moreover from d have "card (set (map aid as)) = length as"
    using distinct_card [of "map aid as"] by simp
  ultimately show ?thesis by simp
qed

subsection \<open>Answer submission and the reachable sessions\<close>

lemma question_of_Some: "question_of s qid = Some q \<Longrightarrow> q_questionId q = qid \<and> q \<in> set (questions s)"
  unfolding question_of_def by (drule find_Some_props) simp


lemma submitAnswer_result:
  assumes "submitAnswer qid sel t now s = Inr s'"
  obtains q e where
    "question_of s qid = Some q"
    "a_questionId e = qid" "a_selectedAnswers e = sel" "a_timeSpent e = t" "a_answeredAt e = now"
    "a_isCorrect e = checkAnswerCorrectness q sel"
    "a_pointsEarned e = (if checkAnswerCorrectness q sel then q_points q else 0)"
    "a_changedAnswers e =
       (if 0 \<le> findIndex (\<lambda>a. a_questionId a = qid) (answers s)
        then a_changedAnswers (answers s ! nat (findIndex (\<lambda>a. a_questionId a = qid) (answers s))) + 1
        else 0)"
    "answers s' =
       (if 0 \<le> findIndex (\<lambda>a. a_questionId a = qid) (answers s)
        then (answers s)[nat (findIndex (\<lambda>a. a_questionId a = qid) (answers s)) := e]
        else answers s @ [e])"
    "questions s' = questions s"
    "status s' = (if status s = NOT_STARTED then IN_PROGRESS else status s)"
    "s' = s\<lparr>answers := answers s', status := status s'\<rparr>"
proof -
  from assms obtain q where q: "question_of s qid = Some q"
    by (auto simp: submitAnswer_def question_of_def split: option.splits)
  let ?i = "findIndex (\<lambda>a. a_questionId a = qid) (answers s)"
  let ?e = "\<lparr>a_questionId = qid, a_selectedAnswers = sel, a_timeSpent = t,
             a_isCorrect = checkAnswerCorrectness q sel,
             a_pointsEarned = (if checkAnswerCorrectness q sel then q_points q else 0),
             a_answeredAt = now,
             a_changedAnswers = (if 0 \<le> ?i then a_changedAnswers (answers s ! nat ?i) + 1 else 0),
             a_tabSwitches = 0, a_copyPasteDetected = False\<rparr>"
  from assms q have s': "s' = (let s1 = (if 0 \<le> ?i then s\<lparr>answers := (answers s)[nat ?i := ?e]\<rparr>
                                    else s\<lparr>answers := answers s @ [?e]\<rparr>)
                            in if status s1 = NOT_STARTED then s1\<lparr>status := IN_PROGRESS\<rparr> else s1)"
    by (simp add: submitAnswer_def question_of_def Let_def)
  show thesis
    by (rule that [of q ?e]) (simp_all add: q s' Let_def)
qed

lemma answers_scored_cong:
  "answers s' = answers s \<Longrightarrow> questions s' = questions s \<Longrightarrow> answers_scored s' = answers_scored s"
  by (simp add: answers_scored_def question_of_def)

lemma answers_scored_initial: "initial_session s \<Longrightarrow> answers_scored s"
  by (simp add: initial_session_def answers_scored_def)

lemma answers_scored_submit:
  assumes inv: "answers_scored s" and sub: "submitAnswer qid sel t now s = Inr s'"
  shows "answers_scored s'"
proof -
  let ?i = "findIndex (\<lambda>a. a_questionId a = qid) (answers s)"
  from sub obtain q e where
    q: "question_of s qid = Some q" and
    e: "a_questionId e = qid" "a_selectedAnswers e = sel"
       "a_isCorrect e = checkAnswerCorrectness q sel"
       "a_pointsEarned e = (if checkAnswerCorrectness q sel then q_points q else 0)" and
    a: "answers s' = (if 0 \<le> ?i then (answers s)[nat ?i := e] else answers s @ [e])" and
    qs: "questions s' = questions s"
    by (rule submitAnswer_result)
  have qo: "question_of s' = question_of s"
    by (simp add: question_of_def qs fun_eq_iff)
  let ?ok = "\<lambda>a. case question_of s (a_questionId a) of
                 None \<Rightarrow> False
               | Some q \<Rightarrow>
                   a_isCorrect a = checkAnswerCorrectness q (a_selectedAnswers a)
                   \<and> a_pointsEarned a = (if a_isCorrect a then q_points q else 0)"
  from inv have d: "distinct (map a_questionId (answers s))"
    and old: "\<forall>a\<in>set (answers s). ?ok a"
    and pts: "list_all (\<lambda>q. 1 \<le> q_points q) (questions s)"
    by (simp_all add: answers_scored_def list_all_iff)
  have eok: "?ok e" by (simp add: q e)
  have d': "distinct (map a_questionId (answers s'))"
  proof (cases "0 \<le> ?i")
    case True
    have "?i < int (length (answers s))" by (rule findIndex_less)
    with True have lt: "nat ?i < length (answers s)" by simp
    from findIndex_sat [of "\<lambda>a. a_questionId a = qid", OF True]
    have "a_questionId (answers s ! nat ?i) = qid" .
    with lt have "(map a_questionId (answers s))[nat ?i := qid] = map a_questionId (answers s)"
      by (simp add: list_update_same_conv)
    then have "map a_questionId ((answers s)[nat ?i := e]) = map a_questionId (answers s)"
      by (simp add: map_update e)
    with d True a show ?thesis by simp
  next
    case False
    then have "qid \<notin> a_questionId ` set (answers s)"
      using findIndex_nonneg_iff [of "\<lambda>a. a_questionId a = qid" "answers s"] by auto
    with d False a e show ?thesis by simp
  qed
  have "set (answers s') \<subseteq> insert e (set (answers s))"
    using a set_update_subset_insert [of "answers s" "nat ?i" e] by (auto split: if_splits)
  with old eok have "\<forall>a\<in>set (answers s'). ?ok a" by blast
  with d' pts show ?thesis
    by (simp add: answers_scored_def list_all_iff qo qs)
qed

lemma markCompleted_keeps:
  "answers (markCompleted now s) = answers s \<and> questions (markCompleted now s) = questions s"
  by (simp add: markCompleted_def pre_save_def Let_def split: option.splits)

lemma pre_save_keeps:
  "answers (pre_save now s) = answers s \<and> questions (pre_save now s) = questions s"
  by (simp add: pre_save_def Let_def split: option.splits)

lemma addCheatingFlag_keeps:
  "addCheatingFlag ty d sev now s = Inr s' \<Longrightarrow> answers s' = answers s \<and> questions s' = questions s"
  by (auto simp: addCheatingFlag_def split: option.splits)

lemma reachable_answers_scored: "reachable s \<Longrightarrow> answers_scored s"
proof (induction rule: reachable.induct)
  case (created s)
  then show ?case by (rule answers_scored_initial)
next
  case (submitted s qid sel t now s')
  then show ?case using answers_scored_submit by blast
next
  case (flagged s ty d sev now s')
  then show ?case using addCheatingFlag_keeps answers_scored_cong by blast
next
  case (completed s now)
  then show ?case using markCompleted_keeps answers_scored_cong by blast
next
  case (saved s now)
  then show ?case using pre_save_keeps answers_scored_cong by blast
qed

lemma submitAnswer_Inl:
  "submitAnswer qid sel t now s = Inl (err, s') \<Longrightarrow>
     err = Error ''Question not found in session'' \<and> s' = s \<and> question_of s qid = None"
  by (auto simp: submitAnswer_def question_of_def Let_def split: option.splits)

lemma reachable_submit_or_keep: "reachable s \<Longrightarrow> reachable (submit_or_keep qid sel t now s)"
  by (auto simp: submit_or_keep_def split: sum.splits
        dest: submitAnswer_Inl intro: reachable.submitted)

lemma answers_scored_entry:
  assumes "answers_scored s" "a \<in> set (answers s)"
  obtains q where "question_of s (a_questionId a) = Some q"
    "a_isCorrect a = checkAnswerCorrectness q (a_selectedAnswers a)"
    "a_pointsEarned a = (if a_isCorrect a then q_points q else 0)"
    "1 \<le> q_points q"
proof -
  from assms obtain q where q: "question_of s (a_questionId a) = Some q"
    "a_isCorrect a = checkAnswerCorrectness q (a_selectedAnswers a)"
    "a_pointsEarned a = (if a_isCorrect a then q_points q else 0)"
    by (auto simp: answers_scored_def list_all_iff split: option.splits)
  from question_of_Some [OF q(1)] assms(1) have "1 \<le> q_points q"
    by (simp add: answers_scored_def list_all_iff)
  with q show thesis by (rule that)
qed

lemma earned_bounds:
  assumes "answers_scored s"
  shows "0 \<le> earnedPoints s" and "earnedPoints s \<le> totalPossiblePoints s"
proof -
  have "0 \<le> a_pointsEarned a" if "a \<in> set (answers s)" for a
    using answers_scored_entry [OF assms that] by (metis order.refl zero_le_one order_trans)
  then show "0 \<le> earnedPoints s"
    unfolding earnedPoints_def by (intro sum_list_nonneg) auto
  have m: "\<forall>a\<in>set (answers s).
           \<exists>q. find (\<lambda>q. q_questionId q = a_questionId a) (questions s) = Some q
               \<and> a_pointsEarned a \<le> q_points q"
  proof
    fix a assume "a \<in> set (answers s)"
    from answers_scored_entry [OF assms this] obtain q where
      "question_of s (a_questionId a) = Some q"
      "a_pointsEarned a = (if a_isCorrect a then q_points q else 0)" "1 \<le> q_points q" by metis
    then show "\<exists>q. find (\<lambda>q. q_questionId q = a_questionId a) (questions s) = Some q
               \<and> a_pointsEarned a \<le> q_points q"
      by (auto simp: question_of_def)
  qed
  from assms have d: "distinct (map a_questionId (answers s))"
    and n: "\<forall>q\<in>set (questions s). 0 \<le> q_points q"
    by (auto simp: answers_scored_def list_all_iff)
  show "earnedPoints s \<le> totalPossiblePoints s"
    unfolding earnedPoints_def totalPossiblePoints_def
    by (rule earned_le_total_lists [OF d m n])
qed

lemma answers_le_questions:
  assumes "answers_scored s"
  shows "length (answers s) \<le> length (questions s)"
proof -
  from assms have d: "distinct (map a_questionId (answers s))"
    by (simp add: answers_scored_def)
  have m: "\<forall>a\<in>set (answers s).
           \<exists>q. find (\<lambda>q. q_questionId q = a_questionId a) (questions s) = Some q"
    using answers_scored_entry [OF assms] unfolding question_of_def by metis
  show ?thesis by (rule count_le_lists [OF d m])
qed

subsection \<open>The scenario sessions\<close>

lemma submit_or_keep_keeps:
  "questions (submit_or_keep qid sel t now s) = questions s"
  "step (submit_or_keep qid sel t now s) = step s"
  by (auto simp: submit_or_keep_def split: sum.splits
        dest: submitAnswer_Inl elim!: submitAnswer_result)

lemma foldl_submit_or_keep:
  "reachable s \<Longrightarrow> reachable (foldl (\<lambda>s (qid, sel). submit_or_keep qid sel t now s) s xs)"
  "questions (foldl (\<lambda>s (qid, sel). submit_or_keep qid sel t now s) s xs) = questions s"
  "step (foldl (\<lambda>s (qid, sel). submit_or_keep qid sel t now s) s xs) = step s"
  by (induction xs arbitrary: s) (auto simp: reachable_submit_or_keep submit_or_keep_keeps)

lemma scenario_fields:
  "questions (scenario_session n k)
     = map (\<lambda>i. sample_question i MULTIPLE_CHOICE) (take n sample_ids)"
  "step (scenario_session n k) = 1"
  by (simp_all add: scenario_session_def foldl_submit_or_keep sample_session_def)

lemma scenario_reachable: "reachable (scenario_session n k)"
  unfolding scenario_session_def
  by (intro foldl_submit_or_keep(1) reachable.created)
    (simp add: initial_session_def sample_session_def list_all_iff sample_question_def)

lemma scenario_score_30:
  "calculateScore (scenario_session 44 30)
     = \<lparr>r_score = 30, r_percentage = 68, r_correctAnswers = 30\<rparr>"
  by code_simp

lemma scenario_score_34:
  "calculateScore (scenario_session 44 34)
     = \<lparr>r_score = 34, r_percentage = 77, r_correctAnswers = 34\<rparr>"
  by code_simp

lemma scenario_score_23:
  "calculateScore (scenario_session 40 23)
     = \<lparr>r_score = 23, r_percentage = 57, r_correctAnswers = 23\<rparr>"
  by code_simp

lemma scenario_score_1:
  "calculateScore (scenario_session 8 1)
     = \<lparr>r_score = 1, r_percentage = 13, r_correctAnswers = 1\<rparr>"
  by code_simp

lemma scenario_total:
  "n \<le> 44 \<Longrightarrow> totalPossiblePoints (scenario_session n k) = int n"
  by (simp add: totalPossiblePoints_def scenario_fields sample_question_def sample_ids_def
        comp_def sum_list_triv)

text \<open>
  Claim C2 as stated fails: the percentage is \<^verbatim>\<open>Math.round\<close> of a product of doubles, not
  of the exact value. In the session with 23 of 40 one-point questions answered correctly
  the quotient is the double just below 0.575, the product the double just below 57.5, and
  the percentage 57, while round(23 / 40 * 100) = round(57.5) is 58.
\<close>

theorem C2_rounding_counterexample:
  "earnedPoints (scenario_session 40 23) = 23
   \<and> totalPossiblePoints (scenario_session 40 23) = 40
   \<and> r_percentage (calculateScore (scenario_session 40 23)) = 57
   \<and> js_round (of_int (earnedPoints (scenario_session 40 23))
                / of_int (totalPossiblePoints (scenario_session 40 23)) * 100) = 58"
proof -
  have e: "earnedPoints (scenario_session 40 23) = 23"
    using calculateScore_score [of "scenario_session 40 23"] by (simp add: scenario_score_23)
  have t: "totalPossiblePoints (scenario_session 40 23) = 40"
    by (simp add: scenario_total)
  have r: "js_round (of_int 23 / of_int 40 * 100) = 58" by code_simp
  from e t r show ?thesis by (simp add: scenario_score_23)
qed

text \<open>
  Claim C2, amended. The percentage \<^verbatim>\<open>calculateScore\<close> returns is \<^verbatim>\<open>Math.round\<close> of the
  double-precision value of earnedPoints / totalPossiblePoints * 100, the total being the
  sum of the points of all questions of the snapshot, and 0 when that sum is 0 (no
  question has negative points). For every session the engine can reach, with a total of
  at most \<open>2 ^ 44\<close>, it is an integer within one half of the exact value: it is
  round(earnedPoints / totalPossiblePoints * 100) with halves going up, except that an
  exact half may go down. For every reachable session the percentage lies between 0 and
  100, and over the same questions a session with no smaller score has no smaller
  percentage.
\<close>

theorem C2_calculateScore:
  "((\<forall>q\<in>set (questions s). 0 \<le> q_points q) \<longrightarrow>
      r_score (calculateScore s) = earnedPoints s
      \<and> r_percentage (calculateScore s) =
          (if totalPossiblePoints s = 0 then 0
           else js_round
                  (to_double
                     (to_double (of_int (earnedPoints s) / of_int (totalPossiblePoints s))
                      * 100))))
   \<and> (reachable s \<and> 0 < totalPossiblePoints s \<and> totalPossiblePoints s \<le> 2 ^ 44 \<longrightarrow>
        \<bar>of_int (r_percentage (calculateScore s))
          - of_int (earnedPoints s) / of_int (totalPossiblePoints s) * (100 :: rat)\<bar> \<le> 1 / 2
        \<and> (r_percentage (calculateScore s)
              = js_round (of_int (earnedPoints s) / of_int (totalPossiblePoints s) * 100)
            \<or> of_int (r_percentage (calculateScore s))
              = of_int (earnedPoints s) / of_int (totalPossiblePoints s) * (100 :: rat) - 1 / 2))
   \<and> (reachable s \<longrightarrow>
        0 \<le> r_percentage (calculateScore s) \<and> r_percentage (calculateScore s) \<le> 100)
   \<and> (questions s1 = questions s2
        \<and> r_score (calculateScore s1) \<le> r_score (calculateScore s2) \<longrightarrow>
        r_percentage (calculateScore s1) \<le> r_percentage (calculateScore s2))"
proof (intro conjI impI)
  assume "\<forall>q\<in>set (questions s). 0 \<le> q_points q"
  then have "0 \<le> totalPossiblePoints s"
    unfolding totalPossiblePoints_def by (intro sum_list_nonneg) auto
  then show "r_percentage (calculateScore s) =
          (if totalPossiblePoints s = 0 then 0
           else js_round
                  (to_double
                     (to_double (of_int (earnedPoints s) / of_int (totalPossiblePoints s))
                      * 100)))"
    by (simp add: calculateScore_percentage)
next
  show "r_score (calculateScore s) = earnedPoints s" by (rule calculateScore_score)
next
  assume a: "reachable s \<and> 0 < totalPossiblePoints s \<and> totalPossiblePoints s \<le> 2 ^ 44"
  then have inv: "answers_scored s" by (intro reachable_answers_scored) simp
  note b = earned_bounds [OF inv]
  from a have t: "0 < totalPossiblePoints s" "totalPossiblePoints s \<le> 2 ^ 44" by simp_all
  from double_percentage_near [OF b t] t(1)
  show near: "\<bar>of_int (r_percentage (calculateScore s))
          - of_int (earnedPoints s) / of_int (totalPossiblePoints s) * (100 :: rat)\<bar> \<le> 1 / 2"
    by (simp only: calculateScore_percentage if_True)
  from near_is_round_unless_half [OF near]
  show "r_percentage (calculateScore s)
              = js_round (of_int (earnedPoints s) / of_int (totalPossiblePoints s) * 100)
            \<or> of_int (r_percentage (calculateScore s))
              = of_int (earnedPoints s) / of_int (totalPossiblePoints s) * (100 :: rat) - 1 / 2" .
next
  assume "reachable s"
  then have inv: "answers_scored s" by (rule reachable_answers_scored)
  note b = earned_bounds [OF inv]
  have both: "0 \<le> r_percentage (calculateScore s) \<and> r_percentage (calculateScore s) \<le> 100"
  proof (cases "totalPossiblePoints s > 0")
    case True
    from double_percentage_range [OF b True] True show ?thesis
      by (simp only: calculateScore_percentage if_True)
  next
    case False
    then show ?thesis by (simp add: calculateScore_percentage)
  qed
  from both show "0 \<le> r_percentage (calculateScore s)" by simp
  from both show "r_percentage (calculateScore s) \<le> 100" by simp
next
  assume a: "questions s1 = questions s2
        \<and> r_score (calculateScore s1) \<le> r_score (calculateScore s2)"
  then have t: "totalPossiblePoints s1 = totalPossiblePoints s2"
    and e: "earnedPoints s1 \<le> earnedPoints s2"
    by (simp_all add: totalPossiblePoints_def calculateScore_score)
  show "r_percentage (calculateScore s1) \<le> r_percentage (calculateScore s2)"
  proof (cases "totalPossiblePoints s2 > 0")
    case True
    from double_percentage_mono [OF e True] True show ?thesis
      by (simp only: calculateScore_percentage t if_True)
  next
    case False
    then show ?thesis by (simp add: calculateScore_percentage t)
  qed
qed

text \<open>
  Three scenario sessions: 30 of 44 gives 68, the exact rounding; 23 of 40 gives 57, the
  exact half 57.5 having gone down; 1 of 8 gives 13, the exact half 12.5 having gone up.
  The session with 34 of 44 has the same questions as the first and the percentage 77.
\<close>

theorem C2_calculateScore_witness:
  "list_all (\<lambda>q. 0 \<le> q_points q) (questions (scenario_session 44 30))
   \<and> reachable (scenario_session 44 30)
   \<and> totalPossiblePoints (scenario_session 44 30) = 44
   \<and> earnedPoints (scenario_session 44 30) = 30
   \<and> r_percentage (calculateScore (scenario_session 44 30)) = 68
   \<and> js_round (of_int (earnedPoints (scenario_session 44 30))
                / of_int (totalPossiblePoints (scenario_session 44 30)) * 100) = 68
   \<and> js_round
        (to_double
           (to_double (of_int (earnedPoints (scenario_session 44 30))
                       / of_int (totalPossiblePoints (scenario_session 44 30))) * 100)) = 68
   \<and> reachable (scenario_session 40 23)
   \<and> r_percentage (calculateScore (scenario_session 40 23)) = 57
   \<and> \<bar>of_int (r_percentage (calculateScore (scenario_session 40 23)))
        - of_int (earnedPoints (scenario_session 40 23))
          / of_int (totalPossiblePoints (scenario_session 40 23)) * (100 :: rat)\<bar> \<le> 1 / 2
   \<and> reachable (scenario_session 8 1)
   \<and> r_percentage (calculateScore (scenario_session 8 1)) = 13
   \<and> \<bar>of_int (r_percentage (calculateScore (scenario_session 8 1)))
        - of_int (earnedPoints (scenario_session 8 1))
          / of_int (totalPossiblePoints (scenario_session 8 1)) * (100 :: rat)\<bar> \<le> 1 / 2
   \<and> questions (scenario_session 44 30) = questions (scenario_session 44 34)
   \<and> r_score (calculateScore (scenario_session 44 30))
       \<le> r_score (calculateScore (scenario_session 44 34))
   \<and> r_percentage (calculateScore (scenario_session 44 30))
       \<le> r_percentage (calculateScore (scenario_session 44 34))
   \<and> r_percentage (calculateScore (scenario_session 44 34)) = 77"
proof -
  note a = C2_calculateScore [of "scenario_session 44 30" "scenario_session 44 30"
      "scenario_session 44 34"]
  note b = C2_calculateScore [of "scenario_session 40 23"]
  note c = C2_calculateScore [of "scenario_session 8 1"]
  have nn: "\<forall>q\<in>set (questions (scenario_session 44 30)). 0 \<le> q_points q"
    by (simp add: scenario_fields sample_question_def)
  have tp: "totalPossiblePoints (scenario_session 44 30) = 44"
    "totalPossiblePoints (scenario_session 40 23) = 40"
    "totalPossiblePoints (scenario_session 8 1) = 8"
    by (simp_all add: scenario_total)
  have ep: "earnedPoints (scenario_session 44 30) = 30"
    using calculateScore_score [of "scenario_session 44 30"] by (simp add: scenario_score_30)
  have q: "questions (scenario_session 44 30) = questions (scenario_session 44 34)"
    by (simp add: scenario_fields)
  have le: "r_score (calculateScore (scenario_session 44 30))
            \<le> r_score (calculateScore (scenario_session 44 34))"
    by (simp add: scenario_score_30 scenario_score_34)
  have r: "js_round (of_int 30 / of_int 44 * 100) = 68" by code_simp
  from a nn tp(1) ep
  have f: "js_round
        (to_double
           (to_double (of_int (earnedPoints (scenario_session 44 30))
                       / of_int (totalPossiblePoints (scenario_session 44 30))) * 100)) = 68"
    by (simp add: scenario_score_30)
  from a q le
  have m: "r_percentage (calculateScore (scenario_session 44 30))
       \<le> r_percentage (calculateScore (scenario_session 44 34))"
    by blast
  from b scenario_reachable [of 40 23] tp(2)
  have n1: "\<bar>of_int (r_percentage (calculateScore (scenario_session 40 23)))
        - of_int (earnedPoints (scenario_session 40 23))
          / of_int (totalPossiblePoints (scenario_session 40 23)) * (100 :: rat)\<bar> \<le> 1 / 2"
    by simp
  from c scenario_reachable [of 8 1] tp(3)
  have n2: "\<bar>of_int (r_percentage (calculateScore (scenario_session 8 1)))
        - of_int (earnedPoints (scenario_session 8 1))
          / of_int (totalPossiblePoints (scenario_session 8 1)) * (100 :: rat)\<bar> \<le> 1 / 2"
    by simp
  have l: "list_all (\<lambda>q. 0 \<le> q_points q) (questions (scenario_session 44 30))"
    using nn by (simp add: list_all_iff)
  have r': "js_round (of_int (earnedPoints (scenario_session 44 30))
                / of_int (totalPossiblePoints (scenario_session 44 30)) * 100) = 68"
    using r by (simp only: ep tp)
  have p30: "r_percentage (calculateScore (scenario_session 44 30)) = 68"
    and p34: "r_percentage (calculateScore (scenario_session 44 34)) = 77"
    and p23: "r_percentage (calculateScore (scenario_session 40 23)) = 57"
    by (simp_all add: scenario_score_30 scenario_score_34 scenario_score_23)
  have p1: "r_percentage (calculateScore (scenario_session 8 1)) = 13"
    using scenario_score_1 by simp
  from l scenario_reachable [of 44 30] tp(1) ep p30 r' f scenario_reachable [of 40 23] p23 n1
    scenario_reachable [of 8 1] p1 n2 q le m p34
  show ?thesis by (intro conjI)
qed

subsection \<open>Level determination\<close>

lemma sum_list_all_one:
  fixes f :: "'a \<Rightarrow> int"
  shows "\<forall>x\<in>set xs. f x = 1 \<Longrightarrow> sum_list (map f xs) = int (length xs)"
  by (induction xs) auto

lemma js_round_30_of_44:
  "js_round (to_double (to_double (of_int 30 / of_int 44) * 100)) = 68"
  by code_simp

lemma scenario_score_small:
  "calculateScore (scenario_session 4 0) = \<lparr>r_score = 0, r_percentage = 0, r_correctAnswers = 0\<rparr>"
  "calculateScore (scenario_session 4 1) = \<lparr>r_score = 1, r_percentage = 25, r_correctAnswers = 1\<rparr>"
  by code_simp+

text \<open>
  Claim C3. \<^verbatim>\<open>determineLevel\<close> returns no level when the computed percentage is below 25;
  for steps 1, 2 and 3 it returns A1, B1 and C1 when the percentage is at least 25 and
  below 50, and A2, B2 and C2 when it is at least 50. A step-1 session that earns 30
  points over 44 one-point questions has percentage 68 and level A2.
\<close>

theorem C3_determineLevel:
  "(r_percentage (calculateScore s) < 25 \<longrightarrow> determineLevel s = None)
   \<and> (25 \<le> r_percentage (calculateScore s) \<and> r_percentage (calculateScore s) < 50 \<longrightarrow>
        (step s = 1 \<longrightarrow> determineLevel s = Some A1)
        \<and> (step s = 2 \<longrightarrow> determineLevel s = Some B1)
        \<and> (step s = 3 \<longrightarrow> determineLevel s = Some C1))
   \<and> (50 \<le> r_percentage (calculateScore s) \<longrightarrow>
        (step s = 1 \<longrightarrow> determineLevel s = Some A2)
        \<and> (step s = 2 \<longrightarrow> determineLevel s = Some B2)
        \<and> (step s = 3 \<longrightarrow> determineLevel s = Some C2))
   \<and> (step s = 1 \<and> length (questions s) = 44 \<and> (\<forall>q\<in>set (questions s). q_points q = 1)
        \<and> earnedPoints s = 30 \<longrightarrow>
        r_percentage (calculateScore s) = 68 \<and> determineLevel s = Some A2)"
proof -
  have bands: "determineLevel s =
      (if r_percentage (calculateScore s) < 25 then None
       else if step s = 1 then Some (if 50 \<le> r_percentage (calculateScore s) then A2 else A1)
       else if step s = 2 then Some (if 50 \<le> r_percentage (calculateScore s) then B2 else B1)
       else if step s = 3 then Some (if 50 \<le> r_percentage (calculateScore s) then C2 else C1)
       else None)"
    by (simp add: determineLevel_def stepLevelMap_def Let_def)
  have scenario: "r_percentage (calculateScore s) = 68"
    if "length (questions s) = 44" "\<forall>q\<in>set (questions s). q_points q = 1" "earnedPoints s = 30"
  proof -
    from that(1,2) have "totalPossiblePoints s = 44"
      by (simp add: totalPossiblePoints_def sum_list_all_one)
    with that(3) js_round_30_of_44 show ?thesis
      by (simp add: calculateScore_percentage)
  qed
  show ?thesis
    using scenario by (auto simp: bands)
qed

text \<open>
  The bands at scenario sessions: 30 of 44 at step 1, 1 of 4 and 0 of 4 at step 1.
\<close>

theorem C3_determineLevel_witness:
  "step (scenario_session 44 30) = 1
   \<and> length (questions (scenario_session 44 30)) = 44
   \<and> list_all (\<lambda>q. q_points q = 1) (questions (scenario_session 44 30))
   \<and> earnedPoints (scenario_session 44 30) = 30
   \<and> r_percentage (calculateScore (scenario_session 44 30)) = 68
   \<and> determineLevel (scenario_session 44 30) = Some A2
   \<and> r_percentage (calculateScore (scenario_session 4 1)) = 25
   \<and> determineLevel (scenario_session 4 1) = Some A1
   \<and> r_percentage (calculateScore (scenario_session 4 0)) = 0
   \<and> determineLevel (scenario_session 4 0) = None"
proof -
  have e: "earnedPoints (scenario_session 44 30) = 30"
    using calculateScore_score [of "scenario_session 44 30"] by (simp add: scenario_score_30)
  have l: "length (questions (scenario_session 44 30)) = 44"
    by (simp add: scenario_fields sample_ids_def)
  have o: "\<forall>q\<in>set (questions (scenario_session 44 30)). q_points q = 1"
    by (simp add: scenario_fields sample_question_def)
  have p0: "r_percentage (calculateScore (scenario_session 4 0)) = 0"
    and p1: "r_percentage (calculateScore (scenario_session 4 1)) = 25"
    using scenario_score_small by simp_all
  from C3_determineLevel [of "scenario_session 44 30"] e l o
  have a: "r_percentage (calculateScore (scenario_session 44 30)) = 68
           \<and> determineLevel (scenario_session 44 30) = Some A2"
    by (simp add: scenario_fields(2))
  from C3_determineLevel [of "scenario_session 4 1"] p1
  have b: "determineLevel (scenario_session 4 1) = Some A1"
    by (simp add: scenario_fields(2))
  from C3_determineLevel [of "scenario_session 4 0"] p0
  have c: "determineLevel (scenario_session 4 0) = None"
    by simp
  from a b c e l o p0 p1 show ?thesis
    by (simp add: scenario_fields(2) list_all_iff)
qed

subsection \<open>Correctness of an answer\<close>

lemma sort_eq_iff_mset_eq:
  fixes xs ys :: "'a :: linorder list"
  shows "sort xs = sort ys \<longleftrightarrow> mset xs = mset ys"
proof
  assume "sort xs = sort ys"
  then have "mset (sort xs) = mset (sort ys)" by simp
  then show "mset xs = mset ys" by simp
next
  assume "mset xs = mset ys"
  then have "mset (sort ys) = mset xs" by simp
  then show "sort xs = sort ys"
    by (rule properties_for_sort) simp
qed

lemma length_every_same_at:
  "length xs = length ys \<and> every_same_at xs ys \<longleftrightarrow> xs = ys"
  using every_same_at_eq [of xs ys] by blast

lemma checkAnswerCorrectness_iff:
  "checkAnswerCorrectness q sel \<longleftrightarrow>
     q_questionType q = MULTIPLE_CHOICE \<and> q_options q \<noteq> None \<and> mset sel = mset (correct_ids q)"
proof (cases "q_options q")
  case None
  then show ?thesis by (simp add: checkAnswerCorrectness_def)
next
  case (Some opts)
  let ?c = "map opt_id (filter opt_isCorrect opts)"
  have "(length (sort ?c) = length (sort sel) \<and> every_same_at (sort ?c) (sort sel))
        \<longleftrightarrow> sort ?c = sort sel"
    by (rule length_every_same_at)
  also have "\<dots> \<longleftrightarrow> mset sel = mset ?c"
    by (auto simp: sort_eq_iff_mset_eq)
  finally show ?thesis
    using Some by (simp add: checkAnswerCorrectness_def correct_ids_def Let_def)
qed

lemma filter_key_distinct:
  "distinct (map f xs) \<Longrightarrow> x \<in> set xs \<Longrightarrow> filter (\<lambda>a. f a = f x) xs = [x]"
proof (induction xs)
  case Nil
  then show ?case by simp
next
  case (Cons y ys)
  show ?case
  proof (cases "x = y")
    case True
    from Cons.prems(1) have "f y \<notin> f ` set ys" by simp
    then have "\<forall>a\<in>set ys. f a \<noteq> f y" by (metis imageI)
    then have "filter (\<lambda>a. f a = f y) ys = []" by (simp add: filter_empty_conv)
    with True show ?thesis by simp
  next
    case False
    with Cons.prems have "x \<in> set ys" "f y \<noteq> f x" by auto
    with Cons show ?thesis by simp
  qed
qed

lemma filter_update_other:
  "i < length xs \<Longrightarrow> \<not> P (xs ! i) \<Longrightarrow> \<not> P e \<Longrightarrow> filter P (xs[i := e]) = filter P xs"
proof (induction xs arbitrary: i)
  case Nil
  then show ?case by simp
next
  case (Cons y ys)
  then show ?case by (cases i) auto
qed

lemma submitAnswer_succeeds:
  "question_of s qid = Some q \<Longrightarrow> \<exists>s'. submitAnswer qid sel t now s = Inr s'"
  by (simp add: submitAnswer_def question_of_def Let_def)

lemma submitAnswer_entry:
  assumes inv: "answers_scored s" and q: "question_of s qid = Some q"
    and sub: "submitAnswer qid sel t now s = Inr s'"
  obtains e where
    "entries_for s' qid = [e]"
    "a_selectedAnswers e = sel"
    "a_isCorrect e = checkAnswerCorrectness q sel"
    "a_pointsEarned e = (if a_isCorrect e then q_points q else 0)"
    "case entries_for s qid of
       [] \<Rightarrow> a_changedAnswers e = 0 \<and> length (answers s') = length (answers s) + 1
     | old # rest \<Rightarrow>
         a_changedAnswers e = a_changedAnswers old + 1 \<and> length (answers s') = length (answers s)"
    "\<forall>other. other \<noteq> qid \<longrightarrow> entries_for s' other = entries_for s other"
proof -
  let ?i = "findIndex (\<lambda>a. a_questionId a = qid) (answers s)"
  from sub obtain q' e where
    q': "question_of s qid = Some q'" and
    e: "a_questionId e = qid" "a_selectedAnswers e = sel"
       "a_isCorrect e = checkAnswerCorrectness q' sel"
       "a_pointsEarned e = (if checkAnswerCorrectness q' sel then q_points q' else 0)"
       "a_changedAnswers e = (if 0 \<le> ?i then a_changedAnswers (answers s ! nat ?i) + 1 else 0)" and
    a: "answers s' = (if 0 \<le> ?i then (answers s)[nat ?i := e] else answers s @ [e])"
    by (rule submitAnswer_result)
  from q q' have [simp]: "q' = q" by simp
  from inv have d: "distinct (map a_questionId (answers s))"
    by (simp add: answers_scored_def)
  from answers_scored_submit [OF inv sub] have d': "distinct (map a_questionId (answers s'))"
    by (simp add: answers_scored_def)
  have lt: "nat ?i < length (answers s)" if "0 \<le> ?i"
    using findIndex_less [of "\<lambda>a. a_questionId a = qid" "answers s"] that by simp
  have at: "a_questionId (answers s ! nat ?i) = qid" if "0 \<le> ?i"
    using findIndex_sat [of "\<lambda>a. a_questionId a = qid", OF that] .
  have mem: "e \<in> set (answers s')"
    using a lt by (auto intro: set_update_memI)
  have one: "entries_for s' qid = [e]"
    using filter_key_distinct [OF d' mem] by (simp add: entries_for_def e)
  have change: "case entries_for s qid of
       [] \<Rightarrow> a_changedAnswers e = 0 \<and> length (answers s') = length (answers s) + 1
     | old # rest \<Rightarrow>
         a_changedAnswers e = a_changedAnswers old + 1 \<and> length (answers s') = length (answers s)"
  proof (cases "0 \<le> ?i")
    case True
    from lt [OF True] have "answers s ! nat ?i \<in> set (answers s)" by simp
    from filter_key_distinct [OF d this] at [OF True]
    have "entries_for s qid = [answers s ! nat ?i]" by (simp add: entries_for_def)
    with True e a show ?thesis by simp
  next
    case False
    then have "\<forall>x\<in>set (answers s). a_questionId x \<noteq> qid"
      using findIndex_nonneg_iff [of "\<lambda>a. a_questionId a = qid" "answers s"] by auto
    then have "entries_for s qid = []" by (simp add: entries_for_def filter_empty_conv)
    with False e a show ?thesis by simp
  qed
  have others: "\<forall>other. other \<noteq> qid \<longrightarrow> entries_for s' other = entries_for s other"
  proof (intro allI impI)
    fix other assume ne: "other \<noteq> qid"
    show "entries_for s' other = entries_for s other"
    proof (cases "0 \<le> ?i")
      case True
      with a have "answers s' = (answers s)[nat ?i := e]" by simp
      then show ?thesis
        using filter_update_other [of "nat ?i" "answers s" "\<lambda>a. a_questionId a = other" e]
          lt [OF True] at [OF True] ne e(1)
        by (simp add: entries_for_def)
    next
      case False
      with a ne e(1) show ?thesis by (simp add: entries_for_def)
    qed
  qed
  show thesis
    by (rule that [of e]) (use one e change others in simp_all)
qed

text \<open>
  Claim C4 as stated fails: \<^verbatim>\<open>checkAnswerCorrectness\<close> compares the two sorted id lists
  element by element after comparing their lengths, so a selection that repeats the one
  correct id has the same set of ids as the correct answers and is still recorded as
  incorrect, with no points.
\<close>

theorem C4_set_equality_counterexample:
  "submitAnswer ''q1'' [''a'', ''a''] 10 1000 one_question_session
     = Inr (one_question_session
             \<lparr>answers :=
                [\<lparr>a_questionId = ''q1'', a_selectedAnswers = [''a'', ''a''], a_timeSpent = 10,
                  a_isCorrect = False, a_pointsEarned = 0, a_answeredAt = 1000,
                  a_changedAnswers = 0, a_tabSwitches = 0, a_copyPasteDetected = False\<rparr>],
              status := IN_PROGRESS\<rparr>)
   \<and> question_of one_question_session ''q1'' = Some (sample_question ''q1'' MULTIPLE_CHOICE)
   \<and> set [''a'', ''a''] = set (correct_ids (sample_question ''q1'' MULTIPLE_CHOICE))"
  by (simp add: submitAnswer_def one_question_session_def sample_session_def
        sample_question_def sample_options_def checkAnswerCorrectness_def correct_ids_def
        question_of_def Let_def)

text \<open>
  Claim C4, amended. For every reachable session and every question id of its snapshot,
  \<^verbatim>\<open>submitAnswer\<close> succeeds and leaves exactly one answer entry for that question. The
  entry is correct iff the question is multiple-choice with an option list and the selected
  ids are the correct ids with the same multiplicities, in any order; for a selection and
  correct ids without repetitions that is equality of the two sets. It earns the question's
  points if correct and 0 otherwise. A first submission appends the entry with change
  counter 0; a resubmission overwrites the prior entry, with the counter one higher and the
  list no longer. Entries of other questions stay as they are, and in every reachable
  session the answers are no more than the questions.
\<close>

theorem C4_submitAnswer:
  "(reachable s \<and> question_of s qid = Some q \<longrightarrow>
      (\<exists>s' e. submitAnswer qid sel t now s = Inr s'
          \<and> entries_for s' qid = [e]
          \<and> a_selectedAnswers e = sel
          \<and> a_isCorrect e =
              (q_questionType q = MULTIPLE_CHOICE \<and> q_options q \<noteq> None
               \<and> mset sel = mset (correct_ids q))
          \<and> (distinct sel \<and> distinct (correct_ids q) \<longrightarrow>
                a_isCorrect e =
                  (q_questionType q = MULTIPLE_CHOICE \<and> q_options q \<noteq> None
                   \<and> set sel = set (correct_ids q)))
          \<and> a_pointsEarned e = (if a_isCorrect e then q_points q else 0)
          \<and> (case entries_for s qid of
                [] \<Rightarrow> a_changedAnswers e = 0 \<and> length (answers s') = length (answers s) + 1
              | old # rest \<Rightarrow>
                  a_changedAnswers e = a_changedAnswers old + 1
                  \<and> length (answers s') = length (answers s))
          \<and> (\<forall>other. other \<noteq> qid \<longrightarrow> entries_for s' other = entries_for s other)
          \<and> reachable s'))
   \<and> (reachable s \<longrightarrow> length (answers s) \<le> length (questions s))"
proof (intro conjI impI)
  assume a: "reachable s \<and> question_of s qid = Some q"
  then have r: "reachable s" and q: "question_of s qid = Some q" by simp_all
  from submitAnswer_succeeds [OF q] obtain s' where sub: "submitAnswer qid sel t now s = Inr s'"
    by blast
  from submitAnswer_entry [OF reachable_answers_scored [OF r] q sub] obtain e where
    e: "entries_for s' qid = [e]" "a_selectedAnswers e = sel"
       "a_isCorrect e = checkAnswerCorrectness q sel"
       "a_pointsEarned e = (if a_isCorrect e then q_points q else 0)"
       "case entries_for s qid of
          [] \<Rightarrow> a_changedAnswers e = 0 \<and> length (answers s') = length (answers s) + 1
        | old # rest \<Rightarrow>
            a_changedAnswers e = a_changedAnswers old + 1
            \<and> length (answers s') = length (answers s)"
       "\<forall>other. other \<noteq> qid \<longrightarrow> entries_for s' other = entries_for s other"
    by blast
  have c: "a_isCorrect e =
              (q_questionType q = MULTIPLE_CHOICE \<and> q_options q \<noteq> None
               \<and> mset sel = mset (correct_ids q))"
    by (simp only: e(3) checkAnswerCorrectness_iff)
  have c': "a_isCorrect e =
              (q_questionType q = MULTIPLE_CHOICE \<and> q_options q \<noteq> None
               \<and> set sel = set (correct_ids q))"
    if "distinct sel \<and> distinct (correct_ids q)"
    using that c set_eq_iff_mset_eq_distinct [of sel "correct_ids q"] by simp
  have r': "reachable s'" by (rule reachable.submitted [OF r sub])
  from sub e(1,2) c c' e(4,5,6) r'
  show "\<exists>s' e. submitAnswer qid sel t now s = Inr s'
          \<and> entries_for s' qid = [e]
          \<and> a_selectedAnswers e = sel
          \<and> a_isCorrect e =
              (q_questionType q = MULTIPLE_CHOICE \<and> q_options q \<noteq> None
               \<and> mset sel = mset (correct_ids q))
          \<and> (distinct sel \<and> distinct (correct_ids q) \<longrightarrow>
                a_isCorrect e =
                  (q_questionType q = MULTIPLE_CHOICE \<and> q_options q \<noteq> None
                   \<and> set sel = set (correct_ids q)))
          \<and> a_pointsEarned e = (if a_isCorrect e then q_points q else 0)
          \<and> (case entries_for s qid of
                [] \<Rightarrow> a_changedAnswers e = 0 \<and> length (answers s') = length (answers s) + 1
              | old # rest \<Rightarrow>
                  a_changedAnswers e = a_changedAnswers old + 1
                  \<and> length (answers s') = length (answers s))
          \<and> (\<forall>other. other \<noteq> qid \<longrightarrow> entries_for s' other = entries_for s other)
          \<and> reachable s'"
    by blast
next
  assume "reachable s"
  then show "length (answers s) \<le> length (questions s)"
    by (intro answers_le_questions reachable_answers_scored)
qed

lemma one_question_session_facts:
  "reachable one_question_session"
  "question_of one_question_session ''q1'' = Some (sample_question ''q1'' MULTIPLE_CHOICE)"
  "entries_for one_question_session ''q1'' = []"
  "answers one_question_session = []"
proof -
  show "reachable one_question_session"
    by (rule reachable.created)
      (simp add: initial_session_def one_question_session_def sample_session_def
         sample_question_def)
qed (simp_all add: one_question_session_def sample_session_def question_of_def entries_for_def
       sample_question_def)

lemma answered_session_eq:
  "answered_session =
     one_question_session
       \<lparr>answers :=
          [\<lparr>a_questionId = ''q1'', a_selectedAnswers = [''a''], a_timeSpent = 10,
            a_isCorrect = True, a_pointsEarned = 1, a_answeredAt = 1000,
            a_changedAnswers = 0, a_tabSwitches = 0, a_copyPasteDetected = False\<rparr>],
        status := IN_PROGRESS\<rparr>"
  by (simp add: answered_session_def submit_or_keep_def submitAnswer_def
        one_question_session_def sample_session_def sample_question_def sample_options_def
        checkAnswerCorrectness_def every_same_at_def Let_def)

lemma answered_session_facts:
  "reachable answered_session"
  "question_of answered_session ''q1'' = Some (sample_question ''q1'' MULTIPLE_CHOICE)"
  "entries_for answered_session ''q1'' =
     [\<lparr>a_questionId = ''q1'', a_selectedAnswers = [''a''], a_timeSpent = 10,
       a_isCorrect = True, a_pointsEarned = 1, a_answeredAt = 1000,
       a_changedAnswers = 0, a_tabSwitches = 0, a_copyPasteDetected = False\<rparr>]"
  "length (answers answered_session) = 1"
proof -
  show "reachable answered_session"
    unfolding answered_session_def
    by (rule reachable_submit_or_keep) (rule one_question_session_facts)
qed (simp_all add: answered_session_eq one_question_session_def sample_session_def
       question_of_def entries_for_def sample_question_def)

lemma sample_question_facts:
  "q_questionType (sample_question i ty) = ty"
  "q_options (sample_question i ty) \<noteq> None"
  "correct_ids (sample_question i ty) = [''a'']"
  "q_points (sample_question i ty) = 1"
  by (simp_all add: sample_question_def sample_options_def correct_ids_def)

lemma true_false_session_facts:
  "reachable true_false_session"
  "question_of true_false_session ''q1'' = Some (sample_question ''q1'' TRUE_FALSE)"
proof -
  show "reachable true_false_session"
    by (rule reachable.created)
      (simp add: initial_session_def true_false_session_def sample_session_def
         sample_question_def)
qed (simp add: true_false_session_def sample_session_def question_of_def sample_question_def)

text \<open>
  A first, correct submission to a one-question session, and a resubmission with the wrong
  option: one entry each time, the change counter going from 0 to 1.
\<close>

theorem C4_submitAnswer_witness:
  "reachable one_question_session
   \<and> question_of one_question_session ''q1'' = Some (sample_question ''q1'' MULTIPLE_CHOICE)
   \<and> (\<exists>s' e. submitAnswer ''q1'' [''a''] 10 1000 one_question_session = Inr s'
         \<and> entries_for s' ''q1'' = [e] \<and> a_isCorrect e \<and> a_pointsEarned e = 1
         \<and> a_changedAnswers e = 0 \<and> length (answers s') = 1)
   \<and> reachable answered_session
   \<and> question_of answered_session ''q1'' = Some (sample_question ''q1'' MULTIPLE_CHOICE)
   \<and> (\<exists>s' e. submitAnswer ''q1'' [''b''] 20 2000 answered_session = Inr s'
         \<and> entries_for s' ''q1'' = [e] \<and> \<not> a_isCorrect e \<and> a_pointsEarned e = 0
         \<and> a_changedAnswers e = 1 \<and> length (answers s') = 1)
   \<and> length (answers answered_session) \<le> length (questions answered_session)"
proof -
  note first = C4_submitAnswer [of one_question_session "''q1''"
      "sample_question ''q1'' MULTIPLE_CHOICE" "[''a'']" 10 1000]
  note again = C4_submitAnswer [of answered_session "''q1''"
      "sample_question ''q1'' MULTIPLE_CHOICE" "[''b'']" 20 2000]
  from first [THEN conjunct1, THEN mp, OF conjI [OF one_question_session_facts(1,2)]]
  obtain s1 e1 where
    s1: "submitAnswer ''q1'' [''a''] 10 1000 one_question_session = Inr s1"
      "entries_for s1 ''q1'' = [e1]"
      "a_isCorrect e1 =
         (q_questionType (sample_question ''q1'' MULTIPLE_CHOICE) = MULTIPLE_CHOICE
          \<and> q_options (sample_question ''q1'' MULTIPLE_CHOICE) \<noteq> None
          \<and> mset [''a''] = mset (correct_ids (sample_question ''q1'' MULTIPLE_CHOICE)))"
      "a_pointsEarned e1 =
         (if a_isCorrect e1 then q_points (sample_question ''q1'' MULTIPLE_CHOICE) else 0)"
      "case entries_for one_question_session ''q1'' of
         [] \<Rightarrow> a_changedAnswers e1 = 0
               \<and> length (answers s1) = length (answers one_question_session) + 1
       | old # rest \<Rightarrow>
           a_changedAnswers e1 = a_changedAnswers old + 1
           \<and> length (answers s1) = length (answers one_question_session)"
    by (elim exE conjE) (rule that)
  from s1(3) have c1: "a_isCorrect e1" by (simp add: sample_question_facts)
  from s1(4) c1 have p1: "a_pointsEarned e1 = 1" by (simp add: sample_question_facts)
  from s1(5) have k1: "a_changedAnswers e1 = 0 \<and> length (answers s1) = 1"
    by (simp add: one_question_session_facts)
  from s1(1,2) c1 p1 k1
  have a: "\<exists>s' e. submitAnswer ''q1'' [''a''] 10 1000 one_question_session = Inr s'
         \<and> entries_for s' ''q1'' = [e] \<and> a_isCorrect e \<and> a_pointsEarned e = 1
         \<and> a_changedAnswers e = 0 \<and> length (answers s') = 1"
    by blast
  from again [THEN conjunct1, THEN mp, OF conjI [OF answered_session_facts(1,2)]]
  obtain s2 e2 where
    s2: "submitAnswer ''q1'' [''b''] 20 2000 answered_session = Inr s2"
      "entries_for s2 ''q1'' = [e2]"
      "a_isCorrect e2 =
         (q_questionType (sample_question ''q1'' MULTIPLE_CHOICE) = MULTIPLE_CHOICE
          \<and> q_options (sample_question ''q1'' MULTIPLE_CHOICE) \<noteq> None
          \<and> mset [''b''] = mset (correct_ids (sample_question ''q1'' MULTIPLE_CHOICE)))"
      "a_pointsEarned e2 =
         (if a_isCorrect e2 then q_points (sample_question ''q1'' MULTIPLE_CHOICE) else 0)"
      "case entries_for answered_session ''q1'' of
         [] \<Rightarrow> a_changedAnswers e2 = 0
               \<and> length (answers s2) = length (answers answered_session) + 1
       | old # rest \<Rightarrow>
           a_changedAnswers e2 = a_changedAnswers old + 1
           \<and> length (answers s2) = length (answers answered_session)"
    by (elim exE conjE) (rule that)
  from s2(3) have c2: "\<not> a_isCorrect e2" by (simp add: sample_question_facts)
  from s2(4) c2 have p2: "a_pointsEarned e2 = 0" by simp
  from s2(5) have k2: "a_changedAnswers e2 = 1 \<and> length (answers s2) = 1"
    by (simp add: answered_session_facts)
  from s2(1,2) c2 p2 k2
  have b: "\<exists>s' e. submitAnswer ''q1'' [''b''] 20 2000 answered_session = Inr s'
         \<and> entries_for s' ''q1'' = [e] \<and> \<not> a_isCorrect e \<and> a_pointsEarned e = 0
         \<and> a_changedAnswers e = 1 \<and> length (answers s') = 1"
    by blast
  from again [THEN conjunct2, THEN mp, OF answered_session_facts(1)]
  have c: "length (answers answered_session) \<le> length (questions answered_session)" .
  from a b c one_question_session_facts(1,2) answered_session_facts(1,2)
  show ?thesis by (intro conjI)
qed

subsection \<open>Failures of answer submission\<close>

lemma completed_session_eq:
  "completed_session =
     one_question_session
       \<lparr>score := Some 0, percentage := Some 0, levelAchieved := None, passed := False,
        canProceedToNextStep := False, isCompleted := True, isSubmitted := True,
        endTime := Some 5000, status := COMPLETED, hasCheatingFlags := False\<rparr>"
  by (simp add: completed_session_def markCompleted_def one_question_session_def
        sample_session_def calculateScore_def determineLevel_def canProceedToNext_def
        pre_save_def Let_def)







subsection \<open>Remaining time\<close>

lemma max_zero_iff: "max 0 y = 0 \<longleftrightarrow> y \<le> 0" for y :: int
  by auto

lemma le_div_iff_mult_le:
  fixes k a c :: int
  assumes "0 < c"
  shows "k \<le> a div c \<longleftrightarrow> k * c \<le> a"
proof
  assume "k \<le> a div c"
  with assms have "k * c \<le> (a div c) * c" by (simp add: mult_right_mono)
  also have "\<dots> \<le> a"
  proof -
    have "a div c * c + a mod c = a" by simp
    moreover from assms have "0 \<le> a mod c" by simp
    ultimately show ?thesis by linarith
  qed
  finally show "k * c \<le> a" .
next
  assume "k * c \<le> a"
  then have "(k * c) div c \<le> a div c" using assms by (rule zdiv_mono1)
  with assms show "k \<le> a div c" by simp
qed

text \<open>
  Claim C6 as stated fails for a completed session: \<^verbatim>\<open>getRemainingTime\<close> returns 0 for it
  although it has a start time and 1794 of its 1800 seconds are left at 6000 ms.
\<close>

theorem C6_completed_counterexample:
  "startTime completed_session = Some 0
   \<and> timeAllowed completed_session = 1800
   \<and> getRemainingTime 6000 completed_session = 0
   \<and> max 0 (timeAllowed completed_session - (6000 - 0) div 1000) = 1794"
  by (simp add: completed_session_eq one_question_session_def sample_session_def
        getRemainingTime_def)

text \<open>
  Claim C6, amended. For every session with a start time that is not completed,
  \<^verbatim>\<open>getRemainingTime\<close> is max(0, timeAllowed minus the whole seconds elapsed since
  startTime), and it is 0 exactly from the instant startTime + timeAllowed (in seconds)
  onward; for a completed session it is 0. It returns a number and no document: no field
  of the session changes.
\<close>

theorem C6_getRemainingTime:
  "(startTime s = Some start \<and> \<not> isCompleted s \<longrightarrow>
      getRemainingTime now s = max 0 (timeAllowed s - (now - start) div 1000)
      \<and> (getRemainingTime now s = 0 \<longleftrightarrow> start + timeAllowed s * 1000 \<le> now))
   \<and> (isCompleted s \<longrightarrow> getRemainingTime now s = 0)"
proof (intro conjI impI)
  assume a: "startTime s = Some start \<and> \<not> isCompleted s"
  then show v: "getRemainingTime now s = max 0 (timeAllowed s - (now - start) div 1000)"
    by (simp add: getRemainingTime_def)
  have "timeAllowed s \<le> (now - start) div 1000 \<longleftrightarrow> timeAllowed s * 1000 \<le> now - start"
    by (rule le_div_iff_mult_le) simp
  then have "timeAllowed s - (now - start) div 1000 \<le> 0
             \<longleftrightarrow> start + timeAllowed s * 1000 \<le> now"
    by linarith
  then show "getRemainingTime now s = 0 \<longleftrightarrow> start + timeAllowed s * 1000 \<le> now"
    unfolding v by (simp only: max_zero_iff)
next
  assume "isCompleted s"
  then show "getRemainingTime now s = 0"
    by (simp add: getRemainingTime_def split: option.splits)
qed

text \<open>
  The open one-question session, started at 0 with 1800 seconds: one second is left one
  millisecond before the limit and none at the limit; the completed session has none.
\<close>

theorem C6_getRemainingTime_witness:
  "startTime one_question_session = Some 0
   \<and> \<not> isCompleted one_question_session
   \<and> getRemainingTime 1799999 one_question_session = 1
   \<and> getRemainingTime 1800000 one_question_session = 0
   \<and> isCompleted completed_session
   \<and> getRemainingTime 1000 completed_session = 0"
proof -
  have f: "startTime one_question_session = Some 0" "\<not> isCompleted one_question_session"
    "timeAllowed one_question_session = 1800"
    by (simp_all add: one_question_session_def sample_session_def)
  have c: "isCompleted completed_session" by (simp add: completed_session_eq)
  from C6_getRemainingTime [of one_question_session 0 1799999] f
  have a: "getRemainingTime 1799999 one_question_session = 1" by simp
  from C6_getRemainingTime [of one_question_session 0 1800000] f
  have b: "getRemainingTime 1800000 one_question_session = 0" by simp
  from C6_getRemainingTime [of completed_session _ 1000] c
  have d: "getRemainingTime 1000 completed_session = 0" by simp
  from f(1,2) a b c d show ?thesis by (intro conjI)
qed

subsection \<open>Step eligibility\<close>

lemma pre_save_progress_keeps:
  "canRetakeStep1 (pre_save_progress p) = canRetakeStep1 p"
  "step1Completed (pre_save_progress p) = step1Completed p"
  "step2Completed (pre_save_progress p) = step2Completed p"
  "step3Completed (pre_save_progress p) = step3Completed p"
  "step1Score (pre_save_progress p) = step1Score p"
  "step2Score (pre_save_progress p) = step2Score p"
  "step3Score (pre_save_progress p) = step3Score p"
  "step1Level (pre_save_progress p) = step1Level p"
  "step2Level (pre_save_progress p) = step2Level p"
  "step3Level (pre_save_progress p) = step3Level p"
  by (simp_all add: pre_save_progress_def Let_def split: list.splits)

lemma failed_step1_progress_facts:
  "\<not> canRetakeStep1 failed_step1_progress"
  "step1Completed failed_step1_progress"
  "step1Score failed_step1_progress = Some 10"
  "\<not> step2Completed failed_step1_progress"
  "step2Score failed_step1_progress = None"
  by (simp_all add: failed_step1_progress_def updateStepProgress_def pre_save_progress_keeps
        sample_progress_def Let_def)

lemma or_zero_ge_iff: "75 \<le> or_zero x \<longleftrightarrow> (\<exists>v. x = Some v \<and> 75 \<le> v)"
  by (cases x) (auto simp: or_zero_def)

lemma canTakeStep_outside: "n \<notin> {1, 2, 3} \<Longrightarrow> \<not> canTakeStep p n"
  by (simp add: canTakeStep_def)

text \<open>
  Claim C7. \<^verbatim>\<open>canTakeStep(1)\<close> holds iff the step-1 retake flag is set or step 1 was
  never completed; \<^verbatim>\<open>canTakeStep(2)\<close> iff step 1 is completed with a score of at least
  75; \<^verbatim>\<open>canTakeStep(3)\<close> iff step 2 is completed with a score of at least 75 (an absent
  score never qualifies). \<^verbatim>\<open>getNextAvailableStep\<close> returns the lowest step that can be
  taken, and nothing exactly when no step can be taken.
\<close>

theorem C7_canTakeStep:
  "(canTakeStep p 1 \<longleftrightarrow> canRetakeStep1 p \<or> \<not> step1Completed p)
   \<and> (canTakeStep p 2 \<longleftrightarrow> step1Completed p \<and> (\<exists>v. step1Score p = Some v \<and> 75 \<le> v))
   \<and> (canTakeStep p 3 \<longleftrightarrow> step2Completed p \<and> (\<exists>v. step2Score p = Some v \<and> 75 \<le> v))
   \<and> (getNextAvailableStep p = Some n \<longleftrightarrow>
        canTakeStep p n \<and> (\<forall>m. m < n \<longrightarrow> \<not> canTakeStep p m))
   \<and> (getNextAvailableStep p = None \<longleftrightarrow> (\<forall>m. \<not> canTakeStep p m))"
proof (intro conjI)
  show "canTakeStep p 1 \<longleftrightarrow> canRetakeStep1 p \<or> \<not> step1Completed p"
    by (simp add: canTakeStep_def)
  show "canTakeStep p 2 \<longleftrightarrow> step1Completed p \<and> (\<exists>v. step1Score p = Some v \<and> 75 \<le> v)"
    by (simp add: canTakeStep_def or_zero_ge_iff)
  show "canTakeStep p 3 \<longleftrightarrow> step2Completed p \<and> (\<exists>v. step2Score p = Some v \<and> 75 \<le> v)"
    by (simp add: canTakeStep_def or_zero_ge_iff)
  have only: "canTakeStep p m \<Longrightarrow> m = 1 \<or> m = 2 \<or> m = 3" for m
    using canTakeStep_outside [of m p] by auto
  show "getNextAvailableStep p = Some n \<longleftrightarrow>
        canTakeStep p n \<and> (\<forall>m. m < n \<longrightarrow> \<not> canTakeStep p m)"
  proof
    assume "getNextAvailableStep p = Some n"
    then show "canTakeStep p n \<and> (\<forall>m. m < n \<longrightarrow> \<not> canTakeStep p m)"
      using only by (fastforce simp: getNextAvailableStep_def split: if_splits)
  next
    assume a: "canTakeStep p n \<and> (\<forall>m. m < n \<longrightarrow> \<not> canTakeStep p m)"
    with only [of n] consider "n = 1" | "n = 2" | "n = 3" by blast
    then show "getNextAvailableStep p = Some n"
    proof cases
      case 1
      with a show ?thesis by (simp add: getNextAvailableStep_def)
    next
      case 2
      with a have "\<not> canTakeStep p 1" by simp
      with 2 a show ?thesis by (simp add: getNextAvailableStep_def)
    next
      case 3
      with a have "\<not> canTakeStep p 1" "\<not> canTakeStep p 2" by simp_all
      with 3 a show ?thesis by (simp add: getNextAvailableStep_def)
    qed
  qed
  show "getNextAvailableStep p = None \<longleftrightarrow> (\<forall>m. \<not> canTakeStep p m)"
    using only by (auto simp: getNextAvailableStep_def)
qed

text \<open>
  A new progress record can take step 1; after step 1 is passed with 80 and no retake,
  step 2 is next; after step 1 is failed with 10, no step is available.
\<close>

theorem C7_canTakeStep_witness:
  "getNextAvailableStep sample_progress = Some 1
   \<and> getNextAvailableStep passed_step1_progress = Some 2
   \<and> getNextAvailableStep failed_step1_progress = None
   \<and> canTakeStep passed_step1_progress 2
   \<and> \<not> canTakeStep passed_step1_progress 1
   \<and> \<not> canTakeStep failed_step1_progress 1
   \<and> \<not> canTakeStep failed_step1_progress 2
   \<and> \<not> canTakeStep failed_step1_progress 3"
proof -
  note new = C7_canTakeStep [of sample_progress 1]
  note passed = C7_canTakeStep [of passed_step1_progress 2]
  note failed = C7_canTakeStep [of failed_step1_progress]
  have none_below_1: "\<forall>m. m < 1 \<longrightarrow> \<not> canTakeStep p m" for p
    using canTakeStep_outside by force
  from new have n1: "canTakeStep sample_progress 1" by (simp add: sample_progress_def)
  with new none_below_1 have a: "getNextAvailableStep sample_progress = Some 1" by blast
  from passed have p2: "canTakeStep passed_step1_progress 2"
    and p1: "\<not> canTakeStep passed_step1_progress 1"
    by (simp_all add: passed_step1_progress_def sample_progress_def)
  have "\<forall>m. m < 2 \<longrightarrow> \<not> canTakeStep passed_step1_progress m"
  proof (intro allI impI)
    fix m :: int assume "m < 2"
    then have "m = 1 \<or> m \<notin> {1, 2, 3}" by auto
    with p1 canTakeStep_outside show "\<not> canTakeStep passed_step1_progress m" by blast
  qed
  with passed p2 have b: "getNextAvailableStep passed_step1_progress = Some 2" by blast
  from failed have f: "\<not> canTakeStep failed_step1_progress 1"
    "\<not> canTakeStep failed_step1_progress 2" "\<not> canTakeStep failed_step1_progress 3"
    by (simp_all add: failed_step1_progress_facts)
  have "\<forall>m. \<not> canTakeStep failed_step1_progress m"
  proof
    fix m :: int
    have "m = 1 \<or> m = 2 \<or> m = 3 \<or> m \<notin> {1, 2, 3}" by auto
    with f canTakeStep_outside show "\<not> canTakeStep failed_step1_progress m" by blast
  qed
  with failed have c: "getNextAvailableStep failed_step1_progress = None" by blast
  from a b c p2 p1 f show ?thesis by (intro conjI)
qed

subsection \<open>The step-1 retake flag\<close>

lemma updateStepProgress_retake:
  "canRetakeStep1 (updateStepProgress stp scr level now p)
     = (canRetakeStep1 p \<and> \<not> (stp = 1 \<and> scr < 25))"
  by (simp add: updateStepProgress_def pre_save_progress_keeps Let_def)

lemma updateCompetencyScore_retake:
  "canRetakeStep1 (updateCompetencyScore c scr level qa ca now p) = canRetakeStep1 p"
  by (simp add: updateCompetencyScore_def pre_save_progress_keeps Let_def)

lemma addAchievement_retake: "canRetakeStep1 (addAchievement a p) = canRetakeStep1 p"
  by (simp add: addAchievement_def pre_save_progress_keeps split: option.splits)

lemma apply_progress_op_retake:
  "canRetakeStep1 (apply_progress_op p op) \<Longrightarrow> canRetakeStep1 p"
  by (cases op)
    (simp_all add: updateStepProgress_retake updateCompetencyScore_retake
       addAchievement_retake pre_save_progress_keeps)

lemma run_progress_ops_retake:
  "canRetakeStep1 (run_progress_ops p ops) \<Longrightarrow> canRetakeStep1 p"
  unfolding run_progress_ops_def
proof (induction ops arbitrary: p)
  case Nil
  then show ?case by simp
next
  case (Cons op ops)
  then have "canRetakeStep1 (apply_progress_op p op)" by simp
  then show ?case by (rule apply_progress_op_retake)
qed

text \<open>
  Claim C8. \<^verbatim>\<open>updateStepProgress\<close> with step 1 and a score below 25 clears
  \<open>canRetakeStep1\<close>, and once the flag is cleared no run of \<^verbatim>\<open>updateStepProgress\<close>,
  \<^verbatim>\<open>updateCompetencyScore\<close>, \<^verbatim>\<open>addAchievement\<close> and saves sets it again.
\<close>

theorem C8_canRetakeStep1:
  "(scr < 25 \<longrightarrow> \<not> canRetakeStep1 (updateStepProgress 1 scr level now p))
   \<and> (\<not> canRetakeStep1 p \<longrightarrow> \<not> canRetakeStep1 (run_progress_ops p ops))"
  using run_progress_ops_retake [of p ops] by (auto simp: updateStepProgress_retake)

text \<open>
  Failing step 1 with 10 clears the flag of a new record; passing step 1 with 90
  afterwards, a competency update, an achievement and a save leave it cleared.
\<close>

theorem C8_canRetakeStep1_witness:
  "canRetakeStep1 sample_progress
   \<and> \<not> canRetakeStep1 (updateStepProgress 1 10 A1 7000 sample_progress)
   \<and> \<not> canRetakeStep1
        (run_progress_ops (updateStepProgress 1 10 A1 7000 sample_progress)
           [UpdateStepProgress 1 90 A2 8000,
            UpdateCompetencyScore ''computer_basics'' 90 A2 None None 8000,
            AddAchievement \<lparr>ach_id = ''first'', ach_name = ''First'', ach_description = ''d'',
                             ach_type = ''level'', ach_unlockedAt = 8000, ach_iconUrl = None\<rparr>,
            Save])"
proof -
  have s: "canRetakeStep1 sample_progress" by (simp add: sample_progress_def)
  from C8_canRetakeStep1 [of 10 A1 7000 sample_progress]
  have a: "\<not> canRetakeStep1 (updateStepProgress 1 10 A1 7000 sample_progress)" by simp
  with C8_canRetakeStep1 [of _ _ _ "updateStepProgress 1 10 A1 7000 sample_progress"] s
  show ?thesis by blast
qed

subsection \<open>The derived fields of a saved progress record\<close>

lemma indexOf_levelOrder: "indexOf levelOrder l = int (level_rank l)"
  by (cases l) (simp_all add: indexOf_def levelOrder_def)

lemma levelOrder_nth_rank: "levelOrder ! level_rank l = l"
  by (cases l) (simp_all add: levelOrder_def)

lemma foldl_max_greatest:
  fixes i :: int
  shows "foldl max i xs \<in> set (i # xs) \<and> (\<forall>x\<in>set (i # xs). x \<le> foldl max i xs)"
proof (induction xs arbitrary: i)
  case Nil
  then show ?case by simp
next
  case (Cons y ys)
  from Cons [of "max i y"] show ?case by (auto simp: max_def split: if_splits)
qed

lemma highest_of_levels:
  assumes "map (indexOf levelOrder) levels = i # rest"
  shows "0 \<le> foldl max i rest"
    and "levelOrder ! nat (foldl max i rest) \<in> set levels"
    and "\<forall>l\<in>set levels. level_rank l \<le> level_rank (levelOrder ! nat (foldl max i rest))"
proof -
  let ?h = "foldl max i rest"
  from foldl_max_greatest [of i rest] assms
  have mem: "?h \<in> set (map (indexOf levelOrder) levels)"
    and top: "\<forall>x\<in>set (map (indexOf levelOrder) levels). x \<le> ?h"
    by simp_all
  from mem obtain l where l: "l \<in> set levels" "?h = int (level_rank l)"
    by (auto simp: indexOf_levelOrder)
  then show "0 \<le> ?h" by simp
  from l have hl: "levelOrder ! nat ?h = l" by (simp add: levelOrder_nth_rank)
  with l show "levelOrder ! nat ?h \<in> set levels" by simp
  show "\<forall>l\<in>set levels. level_rank l \<le> level_rank (levelOrder ! nat ?h)"
  proof
    fix k assume "k \<in> set levels"
    with top have "int (level_rank k) \<le> ?h" by (simp add: indexOf_levelOrder)
    with l(2) have "level_rank k \<le> level_rank l" by simp
    then show "level_rank k \<le> level_rank (levelOrder ! nat ?h)" by (simp only: hl)
  qed
qed

lemma pre_save_progress_currentStep:
  "currentStep (pre_save_progress p) =
     (if step2Completed p \<or> step3Completed p then 3 else if step1Completed p then 2 else 1)"
  by (simp add: pre_save_progress_def Let_def split: list.splits)

lemma pre_save_progress_highest:
  "highestLevelAchieved (pre_save_progress p) =
     (case map (indexOf levelOrder) (set_fields [step1Level p, step2Level p, step3Level p]) of
        [] \<Rightarrow> highestLevelAchieved p
      | i # rest \<Rightarrow>
          if 0 \<le> foldl max i rest then levelOrder ! nat (foldl max i rest)
          else highestLevelAchieved p)"
  by (simp add: pre_save_progress_def Let_def split: list.splits)

lemma pre_save_progress_average:
  "averageScore (pre_save_progress p) =
     (let scores = set_fields [step1Score p, step2Score p, step3Score p]
      in if scores = [] then averageScore p
         else js_round (of_int (sum_list scores) / of_int (int (length scores))))"
proof -
  have "foldl (\<lambda>sum score. sum + score) 0 xs = sum_list xs" for xs :: "int list"
    using foldl_plus_sum_list [of "\<lambda>x. x" 0 xs] by simp
  then show ?thesis
    by (simp add: pre_save_progress_def Let_def split: list.splits)
qed

text \<open>
  Claim C9 as stated fails for the average: the hook stores the mean of the set step scores
  rounded to an integer. With step scores 80 and 75 the mean is 77.5 and the stored
  \<open>averageScore\<close> is 78.
\<close>

theorem C9_average_counterexample:
  "set_fields [step1Score two_step_progress, step2Score two_step_progress,
               step3Score two_step_progress] = [80, 75]
   \<and> averageScore (pre_save_progress two_step_progress) = 78
   \<and> (of_int (averageScore (pre_save_progress two_step_progress)) :: rat) \<noteq> (80 + 75) / 2"
proof -
  have s: "set_fields [step1Score two_step_progress, step2Score two_step_progress,
               step3Score two_step_progress] = [80, 75]"
    by (simp add: set_fields_def two_step_progress_def sample_progress_def)
  have r: "js_round (155 / 2) = 78" by code_simp
  have a: "averageScore (pre_save_progress two_step_progress) = 78"
    by (simp add: pre_save_progress_average s r)
  show ?thesis by (simp add: s a)
qed

text \<open>
  Claim C9, amended. After every save of a progress record, \<open>currentStep\<close> is 3 if step 2
  or step 3 is completed, else 2 if step 1 is completed, else 1; \<open>highestLevelAchieved\<close> is
  the greatest, in the ordering A1 < A2 < B1 < B2 < C1 < C2, of the per-step levels that
  are set; and \<open>averageScore\<close> is the mean of the step scores that are set, rounded to the
  nearest integer (a half going up), steps without a score being left out of the mean and
  not counted as zero. When no level is set, or no score, the field keeps its value. The
  per-step fields are as they were before the save.
\<close>

theorem C9_pre_save_progress:
  "currentStep (pre_save_progress p) =
     (if step2Completed p \<or> step3Completed p then 3 else if step1Completed p then 2 else 1)
   \<and> (set_fields [step1Level p, step2Level p, step3Level p] \<noteq> [] \<longrightarrow>
        highestLevelAchieved (pre_save_progress p)
          \<in> set (set_fields [step1Level p, step2Level p, step3Level p])
        \<and> (\<forall>l\<in>set (set_fields [step1Level p, step2Level p, step3Level p]).
              level_rank l \<le> level_rank (highestLevelAchieved (pre_save_progress p))))
   \<and> (set_fields [step1Level p, step2Level p, step3Level p] = [] \<longrightarrow>
        highestLevelAchieved (pre_save_progress p) = highestLevelAchieved p)
   \<and> (set_fields [step1Score p, step2Score p, step3Score p] \<noteq> [] \<longrightarrow>
        averageScore (pre_save_progress p) =
          js_round (of_int (sum_list (set_fields [step1Score p, step2Score p, step3Score p]))
                    / of_int (int (length (set_fields [step1Score p, step2Score p, step3Score p])))))
   \<and> (set_fields [step1Score p, step2Score p, step3Score p] = [] \<longrightarrow>
        averageScore (pre_save_progress p) = averageScore p)
   \<and> step1Completed (pre_save_progress p) = step1Completed p
   \<and> step2Completed (pre_save_progress p) = step2Completed p
   \<and> step3Completed (pre_save_progress p) = step3Completed p
   \<and> step1Level (pre_save_progress p) = step1Level p
   \<and> step2Level (pre_save_progress p) = step2Level p
   \<and> step3Level (pre_save_progress p) = step3Level p
   \<and> step1Score (pre_save_progress p) = step1Score p
   \<and> step2Score (pre_save_progress p) = step2Score p
   \<and> step3Score (pre_save_progress p) = step3Score p"
proof -
  let ?levels = "set_fields [step1Level p, step2Level p, step3Level p]"
  have high: "highestLevelAchieved (pre_save_progress p) \<in> set ?levels
        \<and> (\<forall>l\<in>set ?levels.
              level_rank l \<le> level_rank (highestLevelAchieved (pre_save_progress p)))"
    if "?levels \<noteq> []"
  proof -
    from that obtain i rest where m: "map (indexOf levelOrder) ?levels = i # rest"
      by (cases "map (indexOf levelOrder) ?levels") auto
    from highest_of_levels [OF m] m show ?thesis
      by (simp only: pre_save_progress_highest list.case if_True)
  qed
  have low: "highestLevelAchieved (pre_save_progress p) = highestLevelAchieved p"
    if "?levels = []"
    using that by (simp add: pre_save_progress_highest)
  show ?thesis
    using high low
    by (simp add: pre_save_progress_currentStep pre_save_progress_average
          pre_save_progress_keeps Let_def)
qed

text \<open>
  The record with steps 1 and 2 at 80 (A2) and 75 (B2): step 3 is current, B2 is the
  highest level, and the average is 78.
\<close>

theorem C9_pre_save_progress_witness:
  "set_fields [step1Level two_step_progress, step2Level two_step_progress,
               step3Level two_step_progress] = [A2, B2]
   \<and> set_fields [step1Score two_step_progress, step2Score two_step_progress,
                 step3Score two_step_progress] = [80, 75]
   \<and> currentStep (pre_save_progress two_step_progress) = 3
   \<and> highestLevelAchieved (pre_save_progress two_step_progress) = B2
   \<and> averageScore (pre_save_progress two_step_progress) = 78"
proof -
  have l: "set_fields [step1Level two_step_progress, step2Level two_step_progress,
               step3Level two_step_progress] = [A2, B2]"
    and s: "set_fields [step1Score two_step_progress, step2Score two_step_progress,
                 step3Score two_step_progress] = [80, 75]"
    and c: "step2Completed two_step_progress"
    by (simp_all add: set_fields_def two_step_progress_def sample_progress_def)
  have r: "js_round (155 / 2) = 78" by code_simp
  note w = C9_pre_save_progress [of two_step_progress]
  from w c have a: "currentStep (pre_save_progress two_step_progress) = 3" by simp
  from w l have "highestLevelAchieved (pre_save_progress two_step_progress) \<in> {A2, B2}"
    and "level_rank B2 \<le> level_rank (highestLevelAchieved (pre_save_progress two_step_progress))"
    by simp_all
  then have b: "highestLevelAchieved (pre_save_progress two_step_progress) = B2" by auto
  from w s r have d: "averageScore (pre_save_progress two_step_progress) = 78" by simp
  from l s a b d show ?thesis by (intro conjI)
qed

subsection \<open>Questions that are not multiple-choice\<close>

text \<open>
  Claim C10. For every question of a reachable session's snapshot whose type is not
  multiple-choice and every list of selected ids, \<^verbatim>\<open>submitAnswer\<close> records the answer as
  incorrect with 0 points. Hence in every reachable session an answer that carries points
  belongs to a multiple-choice question.
\<close>

theorem C10_non_multiple_choice:
  "(reachable s \<and> question_of s qid = Some q \<and> q_questionType q \<noteq> MULTIPLE_CHOICE \<longrightarrow>
      (\<exists>s' e. submitAnswer qid sel t now s = Inr s'
          \<and> entries_for s' qid = [e]
          \<and> a_selectedAnswers e = sel
          \<and> \<not> a_isCorrect e
          \<and> a_pointsEarned e = 0))
   \<and> (reachable s \<longrightarrow>
        (\<forall>a\<in>set (answers s). a_pointsEarned a \<noteq> 0 \<longrightarrow>
           (\<exists>q. question_of s (a_questionId a) = Some q
                \<and> q_questionType q = MULTIPLE_CHOICE)))"
proof (intro conjI impI ballI)
  assume a: "reachable s \<and> question_of s qid = Some q \<and> q_questionType q \<noteq> MULTIPLE_CHOICE"
  then have r: "reachable s" and q: "question_of s qid = Some q"
    and ty: "q_questionType q \<noteq> MULTIPLE_CHOICE" by simp_all
  from submitAnswer_succeeds [OF q] obtain s' where sub: "submitAnswer qid sel t now s = Inr s'"
    by blast
  from submitAnswer_entry [OF reachable_answers_scored [OF r] q sub] obtain e where
    e: "entries_for s' qid = [e]" "a_selectedAnswers e = sel"
       "a_isCorrect e = checkAnswerCorrectness q sel"
       "a_pointsEarned e = (if a_isCorrect e then q_points q else 0)"
    by blast
  from e(3) ty have n: "\<not> a_isCorrect e" by (simp add: checkAnswerCorrectness_iff)
  with e(4) have "a_pointsEarned e = 0" by simp
  with sub e(1,2) n
  show "\<exists>s' e. submitAnswer qid sel t now s = Inr s'
          \<and> entries_for s' qid = [e]
          \<and> a_selectedAnswers e = sel
          \<and> \<not> a_isCorrect e
          \<and> a_pointsEarned e = 0"
    by blast
next
  fix a
  assume r: "reachable s" and a: "a \<in> set (answers s)" and p: "a_pointsEarned a \<noteq> 0"
  from answers_scored_entry [OF reachable_answers_scored [OF r] a] obtain q where
    q: "question_of s (a_questionId a) = Some q"
       "a_isCorrect a = checkAnswerCorrectness q (a_selectedAnswers a)"
       "a_pointsEarned a = (if a_isCorrect a then q_points q else 0)"
    by blast
  from q(3) p have "a_isCorrect a" by (simp split: if_splits)
  with q(2) have "q_questionType q = MULTIPLE_CHOICE" by (simp add: checkAnswerCorrectness_iff)
  with q(1) show "\<exists>q. question_of s (a_questionId a) = Some q
                \<and> q_questionType q = MULTIPLE_CHOICE"
    by blast
qed

text \<open>
  Selecting the option marked correct on a true-false question earns nothing; the entry
  of the answered multiple-choice session that carries a point has a multiple-choice
  question.
\<close>

theorem C10_non_multiple_choice_witness:
  "reachable true_false_session
   \<and> question_of true_false_session ''q1'' = Some (sample_question ''q1'' TRUE_FALSE)
   \<and> q_questionType (sample_question ''q1'' TRUE_FALSE) \<noteq> MULTIPLE_CHOICE
   \<and> (\<exists>s' e. submitAnswer ''q1'' [''a''] 10 1000 true_false_session = Inr s'
          \<and> entries_for s' ''q1'' = [e]
          \<and> a_selectedAnswers e = [''a'']
          \<and> \<not> a_isCorrect e
          \<and> a_pointsEarned e = 0)
   \<and> reachable answered_session
   \<and> (\<exists>a. answers answered_session = [a] \<and> a_questionId a = ''q1'' \<and> a_pointsEarned a = 1)
   \<and> (\<exists>q. question_of answered_session ''q1'' = Some q
            \<and> q_questionType q = MULTIPLE_CHOICE)"
proof -
  have ty: "q_questionType (sample_question ''q1'' TRUE_FALSE) \<noteq> MULTIPLE_CHOICE"
    by (simp add: sample_question_facts)
  note tf = C10_non_multiple_choice [of true_false_session "''q1''"
      "sample_question ''q1'' TRUE_FALSE" "[''a'']" 10 1000]
  note mc = C10_non_multiple_choice [of answered_session]
  from tf [THEN conjunct1, THEN mp, OF conjI [OF true_false_session_facts(1)
        conjI [OF true_false_session_facts(2) ty]]]
  have a: "\<exists>s' e. submitAnswer ''q1'' [''a''] 10 1000 true_false_session = Inr s'
          \<and> entries_for s' ''q1'' = [e]
          \<and> a_selectedAnswers e = [''a'']
          \<and> \<not> a_isCorrect e
          \<and> a_pointsEarned e = 0" .
  have e: "\<exists>a. answers answered_session = [a] \<and> a_questionId a = ''q1''
               \<and> a_pointsEarned a = 1"
    by (simp add: answered_session_eq)
  then obtain x where x: "answers answered_session = [x]" "a_questionId x = ''q1''"
    "a_pointsEarned x = 1" by blast
  from mc [THEN conjunct2, THEN mp, OF answered_session_facts(1)]
  have "\<forall>a\<in>set (answers answered_session). a_pointsEarned a \<noteq> 0 \<longrightarrow>
         (\<exists>q. question_of answered_session (a_questionId a) = Some q
              \<and> q_questionType q = MULTIPLE_CHOICE)" .
  with x have b: "\<exists>q. question_of answered_session ''q1'' = Some q
            \<and> q_questionType q = MULTIPLE_CHOICE"
    by simp
  from true_false_session_facts ty a answered_session_facts(1) e b
  show ?thesis by (intro conjI)
qed

end
